theory Spec2Isabelle
  imports Main "HOL-Library.Word"
begin

unbundle bit_operations_syntax

section \<open>Bytes, byte order and machine integers\<close>

text \<open>
  The writer of \<^verbatim>\<open>MPEG4Writer.cpp\<close> emits bytes. A byte is an 8-bit word; a region of
  memory or of the output file is a function from positions to bytes, read and written
  at a position. File offsets (\<^verbatim>\<open>off_t\<close>), sizes (\<^verbatim>\<open>size_t\<close>) and the lengths of the
  containers are natural numbers; the 64-bit signed values (\<^verbatim>\<open>int64_t\<close> timestamps,
  durations and byte estimates) are integers kept in range by \<open>int64\<close>, the
  two's-complement wrap-around.
\<close>

type_synonym byte = "8 word"

definition write_at :: "nat \<Rightarrow> byte list \<Rightarrow> (nat \<Rightarrow> byte) \<Rightarrow> (nat \<Rightarrow> byte)" where
  "write_at pos bs m = (\<lambda>i. if pos \<le> i \<and> i < pos + length bs then bs ! (i - pos) else m i)"

definition read_at :: "(nat \<Rightarrow> byte) \<Rightarrow> nat \<Rightarrow> nat \<Rightarrow> byte list" where
  "read_at m pos n = map m [pos ..< pos + n]"

text \<open>\<^verbatim>\<open>htons\<close>, \<^verbatim>\<open>htonl\<close> and \<^verbatim>\<open>hton64\<close> followed by a copy of the value's bytes: the
  big-endian bytes of the low 16, 32 or 64 bits of the value.\<close>

definition be16 :: "int \<Rightarrow> byte list" where
  "be16 x = [of_int (x div 2 ^ 8), of_int x]"

definition be32 :: "int \<Rightarrow> byte list" where
  "be32 x = [of_int (x div 2 ^ 24), of_int (x div 2 ^ 16), of_int (x div 2 ^ 8), of_int x]"

definition be64 :: "int \<Rightarrow> byte list" where
  "be64 x = be32 (x div 2 ^ 32) @ be32 x"

definition bytes_of :: "string \<Rightarrow> byte list" where
  "bytes_of s = map (\<lambda>c. of_nat (of_char c)) s"

definition int64 :: "int \<Rightarrow> int" where
  "int64 x = (x + 2 ^ 63) mod 2 ^ 64 - 2 ^ 63"

text \<open>C++ division of signed integers truncates towards zero.\<close>

definition tdiv :: "int \<Rightarrow> int \<Rightarrow> int" where
  "tdiv a b = sgn a * sgn b * (\<bar>a\<bar> div \<bar>b\<bar>)"

definition startcode :: "byte list" where
  "startcode = [0, 0, 0, 1]"

section \<open>Errors and events\<close>

text \<open>
  A failed \<^verbatim>\<open>CHECK\<close> aborts the process. A copy from a null pointer, the use of a string
  pointer that was never set and a step back from the \<^verbatim>\<open>end()\<close> iterator of an empty
  list are faults as well. They are values of \<open>error\<close>, and every operation that can
  meet one returns \<open>error + state\<close>. An integer that is read before anything was
  assigned to it holds some value, which the model carries as data.
\<close>

datatype error = CheckFailed string | NullPointer | EndIteratorDeref | Uninitialized

datatype status = OK | ERROR_MALFORMED | UNKNOWN_ERROR | SourceError

datatype event =
    INFO_MAX_FILESIZE_REACHED
  | INFO_MAX_DURATION_REACHED
  | INFO_STOP_PREMATURELY

fun run :: "('s \<Rightarrow> error + 's) list \<Rightarrow> 's \<Rightarrow> error + 's" where
  "run [] s = Inr s"
| "run (a # as) s = (case a s of Inl e \<Rightarrow> Inl e | Inr s' \<Rightarrow> run as s')"

section \<open>The writer\<close>

text \<open>
  \<open>mFile\<close> says whether the \<^verbatim>\<open>FILE *\<close> is non-null, \<open>fpos\<close> is the position of the
  stream and \<open>disk\<close> the content of the output file, which outlives the stream. Bytes
  never written read as zero. \<open>events\<close> collects what \<^verbatim>\<open>notify\<close> was called with.
\<close>

record writer =
  mFile :: bool
  disk :: "nat \<Rightarrow> byte"
  fpos :: nat
  mOffset :: nat
  mMdatOffset :: nat
  mFreeBoxOffset :: nat
  mEstimatedMoovBoxSize :: nat
  mInterleaveDurationUs :: int
  mStartTimestampUs :: int
  mStreamableFile :: bool
  mWriteMoovBoxToMemory :: bool
  mMoovBoxBuffer :: "(nat \<Rightarrow> byte) option"
  mMoovBoxBufferOffset :: nat
  mBoxes :: "nat list"
  mMaxFileSizeLimitBytes :: int
  mMaxFileDurationLimitUs :: int
  events :: "event list"

definition fseeko :: "nat \<Rightarrow> writer \<Rightarrow> writer" where
  "fseeko pos w = w\<lparr>fpos := pos\<rparr>"

definition fwrite :: "byte list \<Rightarrow> writer \<Rightarrow> writer" where
  "fwrite bs w = w\<lparr>disk := write_at (fpos w) bs (disk w), fpos := fpos w + length bs\<rparr>"

definition notify :: "event \<Rightarrow> writer \<Rightarrow> writer" where
  "notify e w = w\<lparr>events := events w @ [e]\<rparr>"

text \<open>\<^verbatim>\<open>MPEG4Writer::write(ptr, size, nmemb, stream)\<close>; \<open>bs\<close> is the \<open>size * nmemb\<close> bytes
  at \<open>ptr\<close>. (The name \<open>write\<close> is taken in Isabelle.)\<close>

definition write_bytes :: "byte list \<Rightarrow> writer \<Rightarrow> error + writer" where
  "write_bytes bs w =
     (if mWriteMoovBoxToMemory w then
        (case mMoovBoxBuffer w of
           None \<Rightarrow> Inl NullPointer
         | Some buf \<Rightarrow>
             if 8 + mMoovBoxBufferOffset w + length bs > mEstimatedMoovBoxSize w then
               (let w1 = w\<lparr>mBoxes := map (\<lambda>it. it + mOffset w) (mBoxes w)\<rparr>;
                    w2 = fseeko (mOffset w1) w1;
                    w3 = fwrite (read_at buf 0 (mMoovBoxBufferOffset w2)) w2;
                    w4 = fwrite bs w3
                in Inr (w4\<lparr>mOffset := mOffset w4 + (length bs + mMoovBoxBufferOffset w4),
                           mMoovBoxBuffer := None,
                           mMoovBoxBufferOffset := 0,
                           mWriteMoovBoxToMemory := False,
                           mStreamableFile := False\<rparr>))
             else
               Inr (w\<lparr>mMoovBoxBuffer := Some (write_at (mMoovBoxBufferOffset w) bs buf),
                      mMoovBoxBufferOffset := mMoovBoxBufferOffset w + length bs\<rparr>))
      else
        (let w1 = fwrite bs w in Inr (w1\<lparr>mOffset := mOffset w1 + length bs\<rparr>)))"

definition writeInt8 :: "int \<Rightarrow> writer \<Rightarrow> error + writer" where
  "writeInt8 x = write_bytes [of_int x]"

definition writeInt16 :: "int \<Rightarrow> writer \<Rightarrow> error + writer" where
  "writeInt16 x = write_bytes (be16 x)"

definition writeInt32 :: "int \<Rightarrow> writer \<Rightarrow> error + writer" where
  "writeInt32 x = write_bytes (be32 x)"

definition writeInt64 :: "int \<Rightarrow> writer \<Rightarrow> error + writer" where
  "writeInt64 x = write_bytes (be64 x)"

definition writeCString :: "string \<Rightarrow> writer \<Rightarrow> error + writer" where
  "writeCString s = write_bytes (bytes_of s @ [0])"

definition writeFourcc :: "string \<Rightarrow> writer \<Rightarrow> error + writer" where
  "writeFourcc s w = (if length s \<noteq> 4 then Inl (CheckFailed ''strlen(s) == 4'') else write_bytes (bytes_of s) w)"

definition beginBox :: "string \<Rightarrow> writer \<Rightarrow> error + writer" where
  "beginBox fourcc w =
     (if length fourcc \<noteq> 4 then Inl (CheckFailed ''strlen(fourcc) == 4'')
      else run [writeInt32 0, writeFourcc fourcc]
             (w\<lparr>mBoxes := mBoxes w @
                   [if mWriteMoovBoxToMemory w then mMoovBoxBufferOffset w else mOffset w]\<rparr>))"

definition endBox :: "writer \<Rightarrow> error + writer" where
  "endBox w =
     (if mBoxes w = [] then Inl (CheckFailed ''!mBoxes.empty()'')
      else
        (let offset = last (mBoxes w);
             w1 = w\<lparr>mBoxes := butlast (mBoxes w)\<rparr>
         in if mWriteMoovBoxToMemory w1 then
              (case mMoovBoxBuffer w1 of
                 None \<Rightarrow> Inl NullPointer
               | Some buf \<Rightarrow>
                   Inr (w1\<lparr>mMoovBoxBuffer :=
                             Some (write_at offset
                                     (be32 (int (mMoovBoxBufferOffset w1) - int offset)) buf)\<rparr>))
            else
              run [writeInt32 (int (mOffset w1) - int offset),
                   (\<lambda>w. Inr (w\<lparr>mOffset := mOffset w - 4\<rparr>)),
                   (\<lambda>w. Inr (fseeko (mOffset w) w))]
                (fseeko offset w1)))"

text \<open>\<^verbatim>\<open>addSample_l\<close> and \<^verbatim>\<open>addLengthPrefixedSample_l\<close> (with \<^verbatim>\<open>USE_NALLEN_FOUR\<close>) return
  the offset before the write; \<open>bs\<close> is the range of the buffer.\<close>

definition addSample_l :: "byte list \<Rightarrow> writer \<Rightarrow> nat \<times> writer" where
  "addSample_l bs w =
     (let old_offset = mOffset w; w1 = fwrite bs w
      in (old_offset, w1\<lparr>mOffset := mOffset w1 + length bs\<rparr>))"

definition addLengthPrefixedSample_l :: "byte list \<Rightarrow> writer \<Rightarrow> nat \<times> writer" where
  "addLengthPrefixedSample_l bs w =
     (let old_offset = mOffset w;
          w1 = fwrite bs (fwrite (be32 (int (length bs))) w)
      in (old_offset, w1\<lparr>mOffset := mOffset w1 + (length bs + 4)\<rparr>))"

definition setStartTimestamp :: "int \<Rightarrow> writer \<Rightarrow> writer" where
  "setStartTimestamp timeUs w =
     (if mStartTimestampUs w \<noteq> 0 then w else w\<lparr>mStartTimestampUs := timeUs\<rparr>)"

definition getStartTimestamp :: "writer \<Rightarrow> int" where
  "getStartTimestamp w = mStartTimestampUs w"

section \<open>Tracks\<close>

text \<open>
  A \<^verbatim>\<open>MediaBuffer\<close> as the producer loop sees it: the bytes of its range, and the three
  keys of its meta data that the loop looks up (absent keys are \<open>None\<close>).
\<close>

record MediaBuffer =
  range_data :: "byte list"
  kKeyIsCodecConfig :: "int option"
  kKeyIsSyncFrame :: "int option"
  kKeyTime :: "int option"

datatype SampleInfo = SampleInfo (info_size: nat) (info_timestamp: int)

datatype StscTableEntry =
  StscTableEntry (firstChunk: nat) (samplesPerChunk: nat) (sampleDescriptionId: nat)

datatype SttsTableEntry = SttsTableEntry (stts_sampleCount: nat) (stts_sampleDuration: nat)

text \<open>
  The members of \<^verbatim>\<open>MPEG4Writer::Track\<close>. The format meta data \<open>mMeta\<close> is the five
  keys read from it; \<open>mSource_start\<close> is the status that \<^verbatim>\<open>mSource->start()\<close> returns.
  The constructor does not initialise the track's \<^verbatim>\<open>mStartTimestampUs\<close> (here
  \<open>mTrackStartTimestampUs\<close>, the writer has a member of the same name): until the
  producer loop assigns it, it holds whatever the memory of the object held.
  \<open>mSampleInfos_end\<close> is the \<^verbatim>\<open>size\<close> that is read through the \<^verbatim>\<open>end()\<close> iterator of
  \<open>mSampleInfos\<close>, the node that closes the list; no code writes it. The constructor
  takes what the two hold as \<open>start0\<close> and \<open>end0\<close>.
\<close>

record track =
  kKeyMIMEType :: "string option"
  kKeyWidth :: "int option"
  kKeyHeight :: "int option"
  kKeyChannelCount :: "int option"
  kKeySampleRate :: "int option"
  mSource_start :: status
  mDone :: bool
  mMaxTimeStampUs :: int
  mEstimatedTrackSizeBytes :: int
  mSampleInfos :: "SampleInfo list"
  mSamplesHaveSameSize :: bool
  mChunkSamples :: "byte list list"
  mChunkOffsets :: "nat list"
  mStscTableEntries :: "StscTableEntry list"
  mStssTableEntries :: "nat list"
  mSttsTableEntries :: "SttsTableEntry list"
  mCodecSpecificData :: "byte list option"
  mCodecSpecificDataSize :: nat
  mGotAllCodecSpecificData :: bool
  mReachedEOS :: bool
  mTrackStartTimestampUs :: int
  mSampleInfos_end :: nat

definition Track_new ::
  "string option \<Rightarrow> int option \<Rightarrow> int option \<Rightarrow> int option \<Rightarrow> int option \<Rightarrow> status \<Rightarrow>
   int \<Rightarrow> nat \<Rightarrow> track" where
  "Track_new mime width height channels rate src start0 end0 =
     \<lparr>kKeyMIMEType = mime, kKeyWidth = width, kKeyHeight = height,
      kKeyChannelCount = channels, kKeySampleRate = rate, mSource_start = src,
      mDone = False, mMaxTimeStampUs = 0, mEstimatedTrackSizeBytes = 0,
      mSampleInfos = [], mSamplesHaveSameSize = True, mChunkSamples = [],
      mChunkOffsets = [], mStscTableEntries = [], mStssTableEntries = [],
      mSttsTableEntries = [], mCodecSpecificData = None, mCodecSpecificDataSize = 0,
      mGotAllCodecSpecificData = False, mReachedEOS = False,
      mTrackStartTimestampUs = start0, mSampleInfos_end = end0\<rparr>"

definition getDurationUs :: "track \<Rightarrow> int" where
  "getDurationUs t = mMaxTimeStampUs t"

definition getEstimatedTrackSizeBytes :: "track \<Rightarrow> int" where
  "getEstimatedTrackSizeBytes t = mEstimatedTrackSizeBytes t"

definition exceedsFileSizeLimit :: "writer \<Rightarrow> track list \<Rightarrow> bool" where
  "exceedsFileSizeLimit w mTracks =
     (if mMaxFileSizeLimitBytes w = 0 then False
      else
        (let nTotalBytesEstimate =
               fold (\<lambda>it n. int64 (n + getEstimatedTrackSizeBytes it)) mTracks
                 (int (mEstimatedMoovBoxSize w))
         in nTotalBytesEstimate \<ge> mMaxFileSizeLimitBytes w))"

definition exceedsFileDurationLimit :: "writer \<Rightarrow> track list \<Rightarrow> bool" where
  "exceedsFileDurationLimit w mTracks =
     (if mMaxFileDurationLimitUs w = 0 then False
      else list_ex (\<lambda>it. getDurationUs it \<ge> mMaxFileDurationLimitUs w) mTracks)"

definition reachedEOS :: "track list \<Rightarrow> bool" where
  "reachedEOS mTracks = list_all mReachedEOS mTracks"

definition Track_start :: "track \<Rightarrow> status \<times> track" where
  "Track_start t =
     (let err = mSource_start t
      in if err \<noteq> OK then (err, t\<lparr>mDone := True, mReachedEOS := True\<rparr>)
         else (OK, t\<lparr>mDone := False, mMaxTimeStampUs := 0, mReachedEOS := False,
                     mEstimatedTrackSizeBytes := 0\<rparr>))"

text \<open>\<^verbatim>\<open>Track::stop\<close> sets the flag and joins the producer thread; the work of that thread
  is \<open>threadEntry\<close> below.\<close>

definition Track_stop :: "track \<Rightarrow> track" where
  "Track_stop t = (if mDone t then t else t\<lparr>mDone := True\<rparr>)"

subsection \<open>AVC codec specific data\<close>

function find_startcode :: "byte list \<Rightarrow> nat \<Rightarrow> nat" where
  "find_startcode data picParamOffset =
     (if picParamOffset + 3 < length data \<and> take 4 (drop picParamOffset data) \<noteq> startcode
      then find_startcode data (picParamOffset + 1)
      else picParamOffset)"
  by pat_completeness auto
termination
  by (relation "measure (\<lambda>(data, picParamOffset). length data - picParamOffset)") auto

declare find_startcode.simps [simp del]

definition makeAVCCodecSpecificData :: "byte list \<Rightarrow> track \<Rightarrow> status \<times> track" where
  "makeAVCCodecSpecificData data t =
     (if mCodecSpecificData t \<noteq> None then (ERROR_MALFORMED, t)
      else if length data < 4 \<or> take 4 data \<noteq> startcode then (ERROR_MALFORMED, t)
      else
        (let picParamOffset = find_startcode data 4
         in if picParamOffset + 3 \<ge> length data then (ERROR_MALFORMED, t)
            else
              (let seqParamSetLength = picParamOffset - 4;
                   picParamSetLength = length data - picParamOffset - 4;
                   header =
                     [1, 0x42, 0x80, 0x1e, 0xfc OR 3, 0xe0 OR 1,
                      of_nat (seqParamSetLength div 2 ^ 8), of_nat seqParamSetLength]
                     @ take seqParamSetLength (drop 4 data)
                     @ [1, of_nat (picParamSetLength div 2 ^ 8), of_nat picParamSetLength]
                     @ take picParamSetLength (drop (picParamOffset + 4) data)
               in (OK, t\<lparr>mCodecSpecificDataSize :=
                            6 + 1 + seqParamSetLength + 2 + picParamSetLength + 2,
                          mCodecSpecificData := Some header\<rparr>))))"

definition StripStartcode :: "byte list \<Rightarrow> byte list" where
  "StripStartcode buffer =
     (if length buffer < 4 then buffer
      else if take 4 buffer = startcode then drop 4 buffer
      else buffer)"

subsection \<open>The producer loop\<close>

definition add_sample :: "bool \<Rightarrow> byte list \<Rightarrow> writer \<Rightarrow> nat \<times> writer" where
  "add_sample isAvc it w = (if isAvc then addLengthPrefixedSample_l it w else addSample_l it w)"

fun add_samples :: "bool \<Rightarrow> byte list list \<Rightarrow> writer \<Rightarrow> nat list \<times> writer" where
  "add_samples isAvc [] w = ([], w)"
| "add_samples isAvc (it # rest) w =
     (case add_sample isAvc it w of
        (offset, w1) \<Rightarrow> (case add_samples isAvc rest w1 of (offs, w2) \<Rightarrow> (offset # offs, w2)))"

text \<open>\<^verbatim>\<open>writeOneChunk\<close>: only the offset returned for the first sample is recorded.\<close>

definition writeOneChunk :: "bool \<Rightarrow> writer \<times> track \<Rightarrow> writer \<times> track" where
  "writeOneChunk isAvc s =
     (case s of (w, t) \<Rightarrow>
        (case add_samples isAvc (mChunkSamples t) w of
           (offs, w1) \<Rightarrow>
             (w1, t\<lparr>mChunkOffsets := mChunkOffsets t @ take 1 offs, mChunkSamples := []\<rparr>)))"

text \<open>Modelled from the spec: the MIME type constants of \<^verbatim>\<open>MediaDefs.h\<close>, which the
  source compares with and which are not part of the file; the spec lists their values
  under "Recognised MIME types".\<close>

definition MEDIA_MIMETYPE_VIDEO_MPEG4 :: string where
  "MEDIA_MIMETYPE_VIDEO_MPEG4 = ''video/mp4v-es''"

definition MEDIA_MIMETYPE_VIDEO_H263 :: string where
  "MEDIA_MIMETYPE_VIDEO_H263 = ''video/3gpp''"

definition MEDIA_MIMETYPE_VIDEO_AVC :: string where
  "MEDIA_MIMETYPE_VIDEO_AVC = ''video/avc''"

definition MEDIA_MIMETYPE_AUDIO_AMR_NB :: string where
  "MEDIA_MIMETYPE_AUDIO_AMR_NB = ''audio/3gpp''"

definition MEDIA_MIMETYPE_AUDIO_AMR_WB :: string where
  "MEDIA_MIMETYPE_AUDIO_AMR_WB = ''audio/amr-wb''"

definition MEDIA_MIMETYPE_AUDIO_AAC :: string where
  "MEDIA_MIMETYPE_AUDIO_AAC = ''audio/mp4a-latm''"

definition tolower :: "char \<Rightarrow> char" where
  "tolower c =
     (let n = (of_char c :: nat) in if 65 \<le> n \<and> n \<le> 90 then char_of (n + 32) else c)"

text \<open>\<open>strcasecmp a b\<close> is true when the C function returns 0.\<close>

definition strcasecmp :: "string \<Rightarrow> string \<Rightarrow> bool" where
  "strcasecmp a b = (map tolower a = map tolower b)"

definition strncasecmp :: "string \<Rightarrow> string \<Rightarrow> nat \<Rightarrow> bool" where
  "strncasecmp a b n = (take n (map tolower a) = take n (map tolower b))"

text \<open>The local variables of \<^verbatim>\<open>threadEntry\<close>.\<close>

record locals =
  count :: nat
  chunkTimestampUs :: int
  nChunks :: nat
  nZeroLengthFrames :: nat
  lastTimestamp :: int
  lastDuration :: int
  sampleCount :: nat
  previousSampleSize :: nat

datatype 'a iter = Continue 'a | Break 'a

definition uint32 :: "int \<Rightarrow> nat" where
  "uint32 x = nat (x mod 2 ^ 32)"

function find_vol :: "byte list \<Rightarrow> nat \<Rightarrow> nat" where
  "find_vol data offset =
     (if offset + 3 < length data then
        (if take 4 (drop offset data) = [0x00, 0x00, 0x01, 0xb6] then offset
         else find_vol data (offset + 1))
      else offset)"
  by pat_completeness auto
termination
  by (relation "measure (\<lambda>(data, offset). length data - offset)") auto

declare find_vol.simps [simp del]

definition isCodecConfig :: "MediaBuffer \<Rightarrow> bool" where
  "isCodecConfig buffer = (case kKeyIsCodecConfig buffer of None \<Rightarrow> False | Some v \<Rightarrow> v \<noteq> 0)"

text \<open>A buffer flagged as codec configuration.\<close>

definition config_sample :: "bool \<Rightarrow> bool \<Rightarrow> byte list \<Rightarrow> track \<Rightarrow> error + track" where
  "config_sample is_avc is_mpeg4 data t =
     (if mGotAllCodecSpecificData t then Inl (CheckFailed ''!mGotAllCodecSpecificData'')
      else if is_avc then
        (case makeAVCCodecSpecificData data t of
           (err, t1) \<Rightarrow>
             if err \<noteq> OK then Inl (CheckFailed ''OK == err'')
             else Inr (t1\<lparr>mGotAllCodecSpecificData := True\<rparr>))
      else if is_mpeg4 then
        Inr (t\<lparr>mCodecSpecificDataSize := length data,
               mCodecSpecificData := Some data,
               mGotAllCodecSpecificData := True\<rparr>)
      else Inr (t\<lparr>mGotAllCodecSpecificData := True\<rparr>))"

text \<open>The MPEG-4 encoder that does not flag its configuration: the bytes before the VOL
  start code are the configuration, the result is the track and the rest of the buffer.\<close>

definition mpeg4_unflagged :: "byte list \<Rightarrow> track \<Rightarrow> track \<times> byte list" where
  "mpeg4_unflagged data t =
     (let size = length data;
          offset0 = find_vol data 0;
          offset = (if offset0 + 3 \<ge> size then size else offset0)
      in (t\<lparr>mCodecSpecificDataSize := offset, mCodecSpecificData := Some (take offset data)\<rparr>,
          drop offset data))"

text \<open>The AVC encoder that does not flag its configuration and sends SPS and PPS in the
  first two buffers. \<^verbatim>\<open>realloc\<close> keeps the old bytes; bytes of the block that were never
  written are modelled as zero.\<close>

definition avc_unflagged :: "nat \<Rightarrow> byte list \<Rightarrow> track \<Rightarrow> error + track" where
  "avc_unflagged cnt data t =
     (if \<not> (cnt = 2 \<or> mCodecSpecificData t = None) then
        Inl (CheckFailed ''count == 2 || mCodecSpecificData == NULL'')
      else
        (let offset = mCodecSpecificDataSize t;
             old = (case mCodecSpecificData t of None \<Rightarrow> [] | Some bs \<Rightarrow> bs);
             blob = take offset (old @ replicate offset 0) @ startcode @ data;
             t1 = t\<lparr>mCodecSpecificDataSize := mCodecSpecificDataSize t + (length data + 4),
                    mCodecSpecificData := Some blob\<rparr>
         in if cnt = 2 then
              (case makeAVCCodecSpecificData blob
                      (t1\<lparr>mCodecSpecificData := None, mCodecSpecificDataSize := 0\<rparr>) of
                 (err, t2) \<Rightarrow>
                   if err \<noteq> OK then Inl (CheckFailed ''OK == err'')
                   else Inr (t2\<lparr>mGotAllCodecSpecificData := True\<rparr>))
            else Inr t1))"

definition stts_step :: "int \<Rightarrow> track \<times> locals \<Rightarrow> track \<times> locals" where
  "stts_step info_ts s =
     (case s of (t, l) \<Rightarrow>
        if length (mSampleInfos t) > 2 then
          (if lastDuration l \<noteq> int64 (info_ts - lastTimestamp l) then
             (t\<lparr>mSttsTableEntries := mSttsTableEntries t @
                   [SttsTableEntry (sampleCount l) (uint32 (lastDuration l))]\<rparr>,
              l\<lparr>sampleCount := 1\<rparr>)
           else (t, l\<lparr>sampleCount := sampleCount l + 1\<rparr>))
        else (t, l))"

definition same_size_step :: "nat \<Rightarrow> track \<times> locals \<Rightarrow> track \<times> locals" where
  "same_size_step sz s =
     (case s of (t, l) \<Rightarrow>
        if mSamplesHaveSameSize t then
          ((if length (mSampleInfos t) \<ge> 2 \<and> previousSampleSize l \<noteq> sz
            then t\<lparr>mSamplesHaveSameSize := False\<rparr> else t),
           l\<lparr>previousSampleSize := sz\<rparr>)
        else (t, l))"

text \<open>The chunk boundary at the end of the loop body, after the copy was appended to
  \<open>mChunkSamples\<close>. \<open>interleaveDurationUs\<close> is the constant that \<^verbatim>\<open>threadEntry\<close> reads
  from the writer before the loop. The last entry of the sample-to-chunk table is
  looked at through \<^verbatim>\<open>--end()\<close> unless this is the first chunk.\<close>

definition chunk_step ::
  "int \<Rightarrow> bool \<Rightarrow> int \<Rightarrow> writer \<times> track \<times> locals \<Rightarrow> error + writer \<times> track \<times> locals" where
  "chunk_step interleaveDurationUs is_avc timestampUs s =
     (case s of (w, t, l) \<Rightarrow>
        if interleaveDurationUs = 0 then
          (let l1 = l\<lparr>nChunks := nChunks l + 1\<rparr>;
               t1 = t\<lparr>mStscTableEntries := mStscTableEntries t @
                        [StscTableEntry (nChunks l1) 1 1]\<rparr>
           in case writeOneChunk is_avc (w, t1) of (w2, t2) \<Rightarrow> Inr (w2, t2, l1))
        else if chunkTimestampUs l = 0 then
          Inr (w, t, l\<lparr>chunkTimestampUs := timestampUs\<rparr>)
        else if int64 (timestampUs - chunkTimestampUs l) > interleaveDurationUs then
          (let l1 = l\<lparr>nChunks := nChunks l + 1\<rparr>
           in if nChunks l1 \<noteq> 1 \<and> mStscTableEntries t = [] then Inl EndIteratorDeref
              else
                (let t1 = (if nChunks l1 = 1 \<or>
                              samplesPerChunk (last (mStscTableEntries t)) \<noteq>
                                length (mChunkSamples t)
                           then t\<lparr>mStscTableEntries := mStscTableEntries t @
                                    [StscTableEntry (nChunks l1) (length (mChunkSamples t)) 1]\<rparr>
                           else t)
                 in case writeOneChunk is_avc (w, t1) of
                      (w2, t2) \<Rightarrow> Inr (w2, t2, l1\<lparr>chunkTimestampUs := timestampUs\<rparr>)))
        else Inr (w, t, l))"

text \<open>
  The loop body from the deep copy on, in two parts. \<open>accept_sample\<close> is what happens
  to a sample that passed the two limits, up to the point where the copy is appended to
  \<open>mChunkSamples\<close>: \<open>isSync\<close> and \<open>timestampUs\<close> are the values found in the meta data,
  \<open>copy\<close> the copied bytes and \<open>sz\<close> the size recorded for them.
\<close>

definition accept_sample ::
  "int \<Rightarrow> int \<Rightarrow> byte list \<Rightarrow> nat \<Rightarrow> writer \<times> track \<times> locals \<Rightarrow> writer \<times> track \<times> locals" where
  "accept_sample isSync timestampUs copy sz s =
     (case s of (w, t1, l) \<Rightarrow>
        (let w1 = (if mSampleInfos t1 = [] then setStartTimestamp timestampUs w else w);
             t2 = (if mSampleInfos t1 = []
                   then t1\<lparr>mTrackStartTimestampUs :=
                             int64 (timestampUs - getStartTimestamp w1)\<rparr>
                   else t1);
             t3 = (if timestampUs > mMaxTimeStampUs t2
                   then t2\<lparr>mMaxTimeStampUs := timestampUs\<rparr> else t2);
             info_ts = tdiv (int64 (timestampUs + 500)) 1000;
             t4 = t3\<lparr>mSampleInfos := mSampleInfos t3 @ [SampleInfo sz info_ts]\<rparr>
         in case same_size_step sz (stts_step info_ts (t4, l)) of
              (t5, l1) \<Rightarrow>
                (let l2 = l1\<lparr>lastDuration := int64 (info_ts - lastTimestamp l1),
                            lastTimestamp := info_ts\<rparr>;
                     t6 = (if isSync \<noteq> 0
                           then t5\<lparr>mStssTableEntries := mStssTableEntries t5 @
                                     [length (mSampleInfos t5)]\<rparr>
                           else t5);
                     t7 = t6\<lparr>mChunkSamples := mChunkSamples t6 @ [copy]\<rparr>
                 in (w1, t7, l2))))"

text \<open>
  \<open>before\<close> and \<open>after\<close> are the tracks of the writer before and after this one, which
  the two limits look at; \<open>data\<close> is the range of the buffer.
\<close>

definition process_sample ::
  "int \<Rightarrow> bool \<Rightarrow> track list \<Rightarrow> track list \<Rightarrow> MediaBuffer \<Rightarrow> byte list \<Rightarrow>
   writer \<times> track \<times> locals \<Rightarrow> error + (writer \<times> track \<times> locals) iter" where
  "process_sample interleaveDurationUs is_avc before after buffer data s =
     (case s of (w, t, l) \<Rightarrow>
        (let copy = (if is_avc then StripStartcode data else data);
             sz = (if is_avc then length copy + 4 else length copy);
             t1 = t\<lparr>mEstimatedTrackSizeBytes := int64 (mEstimatedTrackSizeBytes t + int sz)\<rparr>
         in if exceedsFileSizeLimit w (before @ t1 # after) then
              Inr (Break (notify INFO_MAX_FILESIZE_REACHED w, t1, l))
            else if exceedsFileDurationLimit w (before @ t1 # after) then
              Inr (Break (notify INFO_MAX_DURATION_REACHED w, t1, l))
            else
              (let isSync = (case kKeyIsSyncFrame buffer of None \<Rightarrow> 0 | Some v \<Rightarrow> v)
               in case kKeyTime buffer of
                    None \<Rightarrow> Inl (CheckFailed ''meta_data->findInt64(kKeyTime, &timestampUs)'')
                  | Some timestampUs \<Rightarrow>
                      (case chunk_step interleaveDurationUs is_avc timestampUs
                              (accept_sample isSync timestampUs copy sz (w, t1, l)) of
                         Inl e \<Rightarrow> Inl e
                       | Inr s1 \<Rightarrow> Inr (Continue s1)))))"

text \<open>
  The first part of an iteration decides what becomes of a buffer that is not empty:
  it is consumed as codec configuration (\<open>Skip\<close>), or it (or the rest of it) is a
  sample (\<open>Take\<close>). \<open>cnt\<close> is \<^verbatim>\<open>count\<close> after its increment.
\<close>

datatype decision = Skip track | Take "byte list" track

definition classify ::
  "bool \<Rightarrow> bool \<Rightarrow> nat \<Rightarrow> MediaBuffer \<Rightarrow> track \<Rightarrow> error + decision" where
  "classify is_avc is_mpeg4 cnt buffer t =
     (if isCodecConfig buffer then
        (case config_sample is_avc is_mpeg4 (range_data buffer) t of
           Inl e \<Rightarrow> Inl e
         | Inr t1 \<Rightarrow> Inr (Skip t1))
      else if \<not> mGotAllCodecSpecificData t \<and> cnt = 1 \<and> is_mpeg4
              \<and> mCodecSpecificData t = None then
        (case mpeg4_unflagged (range_data buffer) t of
           (t1, rest) \<Rightarrow>
             if rest = [] then Inr (Skip t1)
             else Inr (Take rest (t1\<lparr>mGotAllCodecSpecificData := True\<rparr>)))
      else if \<not> mGotAllCodecSpecificData t \<and> is_avc \<and> cnt < 3 then
        (case avc_unflagged cnt (range_data buffer) t of
           Inl e \<Rightarrow> Inl e
         | Inr t1 \<Rightarrow> Inr (Skip t1))
      else Inr (Take (range_data buffer) t))"

text \<open>One iteration of the \<^verbatim>\<open>while\<close> loop, for the buffer that \<^verbatim>\<open>read\<close> returned.\<close>

definition loop_body ::
  "int \<Rightarrow> bool \<Rightarrow> bool \<Rightarrow> track list \<Rightarrow> track list \<Rightarrow> MediaBuffer \<Rightarrow>
   writer \<times> track \<times> locals \<Rightarrow> error + (writer \<times> track \<times> locals) iter" where
  "loop_body interleaveDurationUs is_avc is_mpeg4 before after buffer s =
     (case s of (w, t, l) \<Rightarrow>
        if length (range_data buffer) = 0 then
          Inr (Continue (w, t, l\<lparr>nZeroLengthFrames := nZeroLengthFrames l + 1\<rparr>))
        else
          (let l1 = l\<lparr>count := count l + 1\<rparr>
           in case classify is_avc is_mpeg4 (count l1) buffer t of
                Inl e \<Rightarrow> Inl e
              | Inr (Skip t1) \<Rightarrow> Inr (Continue (w, t1, l1))
              | Inr (Take data t1) \<Rightarrow>
                  process_sample interleaveDurationUs is_avc before after buffer data (w, t1, l1)))"

text \<open>
  The loop \<^verbatim>\<open>while (!mDone && mSource->read(&buffer) == OK)\<close> over the buffers that the
  source hands out before it returns another status (or before \<open>mDone\<close> is seen).
\<close>

fun read_loop ::
  "int \<Rightarrow> bool \<Rightarrow> bool \<Rightarrow> track list \<Rightarrow> track list \<Rightarrow> MediaBuffer list \<Rightarrow>
   writer \<times> track \<times> locals \<Rightarrow> error + writer \<times> track \<times> locals" where
  "read_loop il is_avc is_mpeg4 before after [] s = Inr s"
| "read_loop il is_avc is_mpeg4 before after (buffer # rest) s =
     (if mDone (fst (snd s)) then Inr s
      else
        (case loop_body il is_avc is_mpeg4 before after buffer s of
           Inl e \<Rightarrow> Inl e
         | Inr (Break s1) \<Rightarrow> Inr s1
         | Inr (Continue s1) \<Rightarrow> read_loop il is_avc is_mpeg4 before after rest s1))"

text \<open>What \<^verbatim>\<open>threadEntry\<close> does after the loop.\<close>

definition after_loop :: "bool \<Rightarrow> writer \<times> track \<times> locals \<Rightarrow> writer \<times> track \<times> locals" where
  "after_loop is_avc s =
     (case s of (w, t, l) \<Rightarrow>
        (let w1 = (if mSampleInfos t = [] then notify INFO_STOP_PREMATURELY w else w);
             l1 = (if mChunkSamples t \<noteq> [] then l\<lparr>nChunks := nChunks l + 1\<rparr> else l);
             s2 = (if mChunkSamples t \<noteq> [] then
                     writeOneChunk is_avc
                       (w1, t\<lparr>mStscTableEntries := mStscTableEntries t @
                                [StscTableEntry (nChunks l1) (length (mChunkSamples t)) 1]\<rparr>)
                   else (w1, t));
             l2 = (if length (mSampleInfos t) = 1 then l1\<lparr>lastDuration := 0\<rparr>
                   else l1\<lparr>sampleCount := sampleCount l1 + 1\<rparr>)
         in case s2 of
              (w2, t2) \<Rightarrow>
                (w2,
                 t2\<lparr>mSttsTableEntries := mSttsTableEntries t2 @
                       [SttsTableEntry (sampleCount l2) (uint32 (lastDuration l2))],
                    mReachedEOS := True\<rparr>,
                 l2)))"

definition locals_init :: locals where
  "locals_init =
     \<lparr>count = 0, chunkTimestampUs = 0, nChunks = 0, nZeroLengthFrames = 0,
      lastTimestamp = 0, lastDuration = 0, sampleCount = 1, previousSampleSize = 0\<rparr>"

text \<open>\<^verbatim>\<open>threadEntry\<close> on the buffers \<open>buffers\<close>. The MIME type is looked up without a
  check, so a format without one leaves \<^verbatim>\<open>mime\<close> uninitialised.\<close>

definition threadEntry ::
  "track list \<Rightarrow> track list \<Rightarrow> MediaBuffer list \<Rightarrow> writer \<times> track \<Rightarrow>
   error + writer \<times> track \<times> locals" where
  "threadEntry before after buffers s =
     (case s of (w, t) \<Rightarrow>
        (case kKeyMIMEType t of
           None \<Rightarrow> Inl Uninitialized
         | Some mime \<Rightarrow>
             (let is_mpeg4 = (strcasecmp mime MEDIA_MIMETYPE_VIDEO_MPEG4
                              \<or> strcasecmp mime MEDIA_MIMETYPE_AUDIO_AAC);
                  is_avc = strcasecmp mime MEDIA_MIMETYPE_VIDEO_AVC;
                  interleaveDurationUs = mInterleaveDurationUs w
              in case read_loop interleaveDurationUs is_avc is_mpeg4 before after buffers
                        (w, t, locals_init) of
                   Inl e \<Rightarrow> Inl e
                 | Inr s1 \<Rightarrow> Inr (after_loop is_avc s1))))"

subsection \<open>The track header\<close>

definition fail :: "string \<Rightarrow> writer \<Rightarrow> error + writer" where
  "fail msg w = Inl (CheckFailed msg)"

definition undefined_read :: "error \<Rightarrow> writer \<Rightarrow> error + writer" where
  "undefined_read e w = Inl e"

text \<open>\<^verbatim>\<open>mOwner->write(mCodecSpecificData, mCodecSpecificDataSize)\<close>.\<close>

definition write_codec_specific_data :: "track \<Rightarrow> writer \<Rightarrow> error + writer" where
  "write_codec_specific_data t =
     (case mCodecSpecificData t of
        None \<Rightarrow> (if mCodecSpecificDataSize t = 0 then write_bytes [] else undefined_read NullPointer)
      | Some bs \<Rightarrow> write_bytes (take (mCodecSpecificDataSize t) bs))"

definition matrix :: "(writer \<Rightarrow> error + writer) list" where
  "matrix =
     [writeInt32 0x10000, writeInt32 0, writeInt32 0,
      writeInt32 0, writeInt32 0x10000, writeInt32 0,
      writeInt32 0, writeInt32 0, writeInt32 0x40000000]"

definition write_tkhd :: "int \<Rightarrow> int \<Rightarrow> bool \<Rightarrow> track \<Rightarrow> (writer \<Rightarrow> error + writer) list" where
  "write_tkhd now trackID is_audio t =
     [beginBox ''tkhd'',
      writeInt32 0, writeInt32 now, writeInt32 now, writeInt32 trackID, writeInt32 0,
      writeInt32 (tdiv (getDurationUs t) 1000), writeInt32 0, writeInt32 0,
      writeInt16 0, writeInt16 0, writeInt16 (if is_audio then 0x100 else 0), writeInt16 0]
     @ matrix
     @ (if is_audio then [writeInt32 0, writeInt32 0]
        else
          (case kKeyWidth t of
             None \<Rightarrow> [fail ''success'']
           | Some width \<Rightarrow>
               (case kKeyHeight t of
                  None \<Rightarrow> [fail ''success'']
                | Some height \<Rightarrow> [writeInt32 (width * 2 ^ 16), writeInt32 (height * 2 ^ 16)])))
     @ [endBox]"

text \<open>The edit list is written when the start timestamp of the track is not 0. For a
  track that accepted no sample the member tested is the one the constructor left
  unassigned.\<close>

definition write_edts :: "track \<Rightarrow> (writer \<Rightarrow> error + writer) list" where
  "write_edts t =
     (if mTrackStartTimestampUs t \<noteq> 0 then
        [beginBox ''edts'', writeInt32 0,
         beginBox ''elst'', writeInt32 0, writeInt32 1,
         writeInt32 (tdiv (mTrackStartTimestampUs t) 1000),
         writeInt32 (- 1), writeInt32 1, endBox, endBox]
      else [])"

definition write_mdhd_hdlr :: "int \<Rightarrow> bool \<Rightarrow> track \<Rightarrow> (writer \<Rightarrow> error + writer) list" where
  "write_mdhd_hdlr now is_audio t =
     [beginBox ''mdhd'',
      writeInt32 0, writeInt32 now, writeInt32 now, writeInt32 1000,
      writeInt32 (tdiv (getDurationUs t) 1000), writeInt16 0, writeInt16 0,
      endBox,
      beginBox ''hdlr'',
      writeInt32 0, writeInt32 0, writeFourcc (if is_audio then ''soun'' else ''vide''),
      writeInt32 0, writeInt32 0, writeInt32 0,
      writeCString (if is_audio then ''SoundHandler'' else []),
      endBox]"

definition write_minf :: "bool \<Rightarrow> (writer \<Rightarrow> error + writer) list" where
  "write_minf is_audio =
     [beginBox ''minf'']
     @ (if is_audio then [beginBox ''smhd'', writeInt32 0, writeInt16 0, writeInt16 0, endBox]
        else [beginBox ''vmhd'', writeInt32 0x00000001, writeInt16 0, writeInt16 0,
              writeInt16 0, writeInt16 0, endBox])
     @ [beginBox ''dinf'', beginBox ''dref'', writeInt32 0, writeInt32 1,
        beginBox ''url '', writeInt32 1, endBox, endBox, endBox,
        endBox]"

definition kData2 :: "byte list" where
  "kData2 = [0x06, 0x01, 0x02]"

definition write_audio_entry :: "string \<Rightarrow> track \<Rightarrow> (writer \<Rightarrow> error + writer) list" where
  "write_audio_entry mime t =
     (if strcasecmp MEDIA_MIMETYPE_AUDIO_AMR_NB mime then [beginBox ''samr'']
      else if strcasecmp MEDIA_MIMETYPE_AUDIO_AMR_WB mime then [beginBox ''sawb'']
      else if strcasecmp MEDIA_MIMETYPE_AUDIO_AAC mime then [beginBox ''mp4a'']
      else [fail ''should not be here, unknown mime type.''])
     @ [writeInt32 0, writeInt16 0, writeInt16 0x1, writeInt32 0, writeInt32 0]
     @ (case kKeyChannelCount t of
          None \<Rightarrow> [fail ''mMeta->findInt32(kKeyChannelCount, &nChannels)'']
        | Some nChannels \<Rightarrow> [writeInt16 nChannels])
     @ [writeInt16 16, writeInt16 0, writeInt16 0]
     @ (case kKeySampleRate t of
          None \<Rightarrow> [fail ''success'']
        | Some samplerate \<Rightarrow> [writeInt32 (samplerate * 2 ^ 16)])
     @ (if strcasecmp MEDIA_MIMETYPE_AUDIO_AAC mime then
          [beginBox ''esds'',
           writeInt32 0, writeInt8 0x03, writeInt8 (23 + int (mCodecSpecificDataSize t)),
           writeInt16 0x0000, writeInt8 0x00,
           writeInt8 0x04, writeInt8 (15 + int (mCodecSpecificDataSize t)),
           writeInt8 0x40, writeInt8 0x15,
           writeInt16 0x03, writeInt8 0x00, writeInt32 96000, writeInt32 96000,
           writeInt8 0x05, writeInt8 (int (mCodecSpecificDataSize t)),
           write_codec_specific_data t,
           write_bytes kData2,
           endBox]
        else [])
     @ [endBox]"

definition kData :: "byte list" where
  "kData = [0x01, 0x77, 0x00, 0x00, 0x03, 0xe8, 0x00, 0x00, 0x03, 0xe8, 0x00]"

definition write_video_entry :: "string \<Rightarrow> track \<Rightarrow> (writer \<Rightarrow> error + writer) list" where
  "write_video_entry mime t =
     (if strcasecmp MEDIA_MIMETYPE_VIDEO_MPEG4 mime then [beginBox ''mp4v'']
      else if strcasecmp MEDIA_MIMETYPE_VIDEO_H263 mime then [beginBox ''s263'']
      else if strcasecmp MEDIA_MIMETYPE_VIDEO_AVC mime then [beginBox ''avc1'']
      else [fail ''should not be here, unknown mime type.''])
     @ [writeInt32 0, writeInt16 0, writeInt16 0, writeInt16 0, writeInt16 0,
        writeInt32 0, writeInt32 0, writeInt32 0]
     @ (case kKeyWidth t of
          None \<Rightarrow> [fail ''success'']
        | Some width \<Rightarrow>
            (case kKeyHeight t of
               None \<Rightarrow> [fail ''success'']
             | Some height \<Rightarrow> [writeInt16 width, writeInt16 height]))
     @ [writeInt32 0x480000, writeInt32 0x480000, writeInt32 0, writeInt16 1,
        write_bytes (bytes_of (replicate 32 (CHR '' ''))),
        writeInt16 0x18, writeInt16 (- 1)]
     @ (if \<not> 23 + mCodecSpecificDataSize t < 128 then [fail ''23 + mCodecSpecificDataSize < 128'']
        else [])
     @ (if strcasecmp MEDIA_MIMETYPE_VIDEO_MPEG4 mime then
          [beginBox ''esds'',
           writeInt32 0,
           writeInt8 0x03, writeInt8 (23 + int (mCodecSpecificDataSize t)),
           writeInt16 0x0000, writeInt8 0x1f,
           writeInt8 0x04, writeInt8 (15 + int (mCodecSpecificDataSize t)),
           writeInt8 0x20, writeInt8 0x11,
           write_bytes kData,
           writeInt8 0x05,
           writeInt8 (int (mCodecSpecificDataSize t)),
           write_codec_specific_data t,
           write_bytes kData2,
           endBox]
        else if strcasecmp MEDIA_MIMETYPE_VIDEO_H263 mime then
          [beginBox ''d263'', writeInt32 0, writeInt8 0, writeInt8 10, writeInt8 0, endBox]
        else if strcasecmp MEDIA_MIMETYPE_VIDEO_AVC mime then
          [beginBox ''avcC'', write_codec_specific_data t, endBox]
        else [])
     @ [endBox]"

definition write_stts :: "track \<Rightarrow> (writer \<Rightarrow> error + writer) list" where
  "write_stts t =
     [beginBox ''stts'', writeInt32 0, writeInt32 (int (length (mSttsTableEntries t)))]
     @ concat (map (\<lambda>it. [writeInt32 (int (stts_sampleCount it)),
                          writeInt32 (int (stts_sampleDuration it))])
                 (mSttsTableEntries t))
     @ [endBox]"

definition write_stss :: "track \<Rightarrow> (writer \<Rightarrow> error + writer) list" where
  "write_stss t =
     [beginBox ''stss'', writeInt32 0, writeInt32 (int (length (mStssTableEntries t)))]
     @ map (\<lambda>it. writeInt32 (int it)) (mStssTableEntries t)
     @ [endBox]"

text \<open>With \<open>mSamplesHaveSameSize\<close> the default sample size is read through
  \<^verbatim>\<open>mSampleInfos.begin()\<close>, which for an empty list is its \<^verbatim>\<open>end()\<close>: the value
  found there is written and the box goes on.\<close>

definition write_stsz :: "track \<Rightarrow> (writer \<Rightarrow> error + writer) list" where
  "write_stsz t =
     [beginBox ''stsz'', writeInt32 0]
     @ (if mSamplesHaveSameSize t then
          (case mSampleInfos t of
             [] \<Rightarrow> [writeInt32 (int (mSampleInfos_end t))]
           | it # _ \<Rightarrow> [writeInt32 (int (info_size it))])
        else [writeInt32 0])
     @ [writeInt32 (int (length (mSampleInfos t)))]
     @ (if \<not> mSamplesHaveSameSize t
        then map (\<lambda>it. writeInt32 (int (info_size it))) (mSampleInfos t) else [])
     @ [endBox]"

definition write_stsc :: "track \<Rightarrow> (writer \<Rightarrow> error + writer) list" where
  "write_stsc t =
     [beginBox ''stsc'', writeInt32 0, writeInt32 (int (length (mStscTableEntries t)))]
     @ concat (map (\<lambda>it. [writeInt32 (int (firstChunk it)),
                          writeInt32 (int (samplesPerChunk it)),
                          writeInt32 (int (sampleDescriptionId it))])
                 (mStscTableEntries t))
     @ [endBox]"

definition write_co64 :: "track \<Rightarrow> (writer \<Rightarrow> error + writer) list" where
  "write_co64 t =
     [beginBox ''co64'', writeInt32 0, writeInt32 (int (length (mChunkOffsets t)))]
     @ map (\<lambda>it. writeInt64 (int it)) (mChunkOffsets t)
     @ [endBox]"

text \<open>\<^verbatim>\<open>writeTrackHeader\<close> as the sequence of its calls on the writer; \<open>now\<close> is what
  \<^verbatim>\<open>time(NULL)\<close> returns.\<close>

definition writeTrackHeader_calls :: "int \<Rightarrow> int \<Rightarrow> track \<Rightarrow> (writer \<Rightarrow> error + writer) list" where
  "writeTrackHeader_calls now trackID t =
     (case kKeyMIMEType t of
        None \<Rightarrow> [fail ''success'']
      | Some mime \<Rightarrow>
          (let is_audio = strncasecmp mime ''audio/'' 6
           in [beginBox ''trak'']
              @ write_tkhd now trackID is_audio t
              @ write_edts t
              @ [beginBox ''mdia'']
              @ write_mdhd_hdlr now is_audio t
              @ write_minf is_audio
              @ [beginBox ''stbl'', beginBox ''stsd'', writeInt32 0, writeInt32 1]
              @ (if is_audio then write_audio_entry mime t else write_video_entry mime t)
              @ [endBox]
              @ write_stts t
              @ (if \<not> is_audio then write_stss t else [])
              @ write_stsz t
              @ write_stsc t
              @ write_co64 t
              @ [endBox, endBox, endBox]))"


section \<open>Starting and stopping the writer\<close>

text \<open>The constructor leaves the members that \<^verbatim>\<open>start\<close> assigns uninitialised; they are
  given fixed values here. The two limits are members of the base class.\<close>

definition MPEG4Writer_new :: writer where
  "MPEG4Writer_new =
     \<lparr>mFile = True, disk = (\<lambda>_. 0), fpos = 0, mOffset = 0, mMdatOffset = 0,
      mFreeBoxOffset = 0, mEstimatedMoovBoxSize = 0, mInterleaveDurationUs = 500000,
      mStartTimestampUs = 0, mStreamableFile = False, mWriteMoovBoxToMemory = False,
      mMoovBoxBuffer = None, mMoovBoxBufferOffset = 0, mBoxes = [],
      mMaxFileSizeLimitBytes = 0, mMaxFileDurationLimitUs = 0, events = []\<rparr>"

fun start_tracks :: "track list \<Rightarrow> track list \<Rightarrow> status \<times> track list" where
  "start_tracks started [] = (OK, started)"
| "start_tracks started (it # rest) =
     (case Track_start it of
        (err, it1) \<Rightarrow>
          if err \<noteq> OK then (err, map Track_stop started @ it1 # rest)
          else start_tracks (started @ [it1]) rest)"

definition start :: "writer \<times> track list \<Rightarrow> error + status \<times> writer \<times> track list" where
  "start s =
     (case s of (w, mTracks) \<Rightarrow>
        if \<not> mFile w then Inr (UNKNOWN_ERROR, w, mTracks)
        else
          (case run [beginBox ''ftyp'', writeFourcc ''isom'', writeInt32 0, writeFourcc ''isom'',
                     endBox,
                     (\<lambda>w. Inr (w\<lparr>mFreeBoxOffset := mOffset w\<rparr>)),
                     (\<lambda>w. Inr (if mEstimatedMoovBoxSize w = 0
                                then w\<lparr>mEstimatedMoovBoxSize := 0x0F00\<rparr> else w)),
                     (\<lambda>w. if mEstimatedMoovBoxSize w \<ge> 8 then Inr w
                           else Inl (CheckFailed ''mEstimatedMoovBoxSize >= 8'')),
                     (\<lambda>w. Inr (fseeko (mFreeBoxOffset w) w)),
                     (\<lambda>w. writeInt32 (int (mEstimatedMoovBoxSize w)) w),
                     write_bytes (bytes_of ''free''),
                     (\<lambda>w. Inr (w\<lparr>mMdatOffset := mFreeBoxOffset w + mEstimatedMoovBoxSize w\<rparr>)),
                     (\<lambda>w. Inr (w\<lparr>mOffset := mMdatOffset w\<rparr>)),
                     (\<lambda>w. Inr (fseeko (mMdatOffset w) w)),
                     write_bytes ([0, 0, 0, 1] @ bytes_of ''mdat????????'')]
                  (w\<lparr>mStartTimestampUs := 0, mStreamableFile := True,
                     mWriteMoovBoxToMemory := False, mMoovBoxBuffer := None,
                     mMoovBoxBufferOffset := 0\<rparr>) of
             Inl e \<Rightarrow> Inl e
           | Inr w1 \<Rightarrow>
               (case start_tracks [] mTracks of (err, mTracks1) \<Rightarrow> Inr (err, w1, mTracks1))))"

definition write_mvhd :: "int \<Rightarrow> int \<Rightarrow> nat \<Rightarrow> (writer \<Rightarrow> error + writer) list" where
  "write_mvhd now max_duration ntracks =
     [beginBox ''mvhd'',
      writeInt32 0, writeInt32 now, writeInt32 now, writeInt32 1000,
      writeInt32 (tdiv max_duration 1000), writeInt32 0x10000,
      writeInt16 0x100, writeInt16 0, writeInt32 0, writeInt32 0]
     @ matrix
     @ [writeInt32 0, writeInt32 0, writeInt32 0, writeInt32 0, writeInt32 0, writeInt32 0,
        writeInt32 (int ntracks + 1),
        endBox]"

text \<open>The streamable case after the moov box was assembled in memory.\<close>

definition place_moov :: "writer \<Rightarrow> error + writer" where
  "place_moov w =
     (if mStreamableFile w then
        (if \<not> mMoovBoxBufferOffset w + 8 \<le> mEstimatedMoovBoxSize w then
           Inl (CheckFailed ''mMoovBoxBufferOffset + 8 <= mEstimatedMoovBoxSize'')
         else
           (case mMoovBoxBuffer w of
              None \<Rightarrow> Inl NullPointer
            | Some buf \<Rightarrow>
                run [write_bytes (read_at buf 0 (mMoovBoxBufferOffset w)),
                     (\<lambda>w. Inr (w\<lparr>mFreeBoxOffset :=
                                   (if mStreamableFile w then mOffset w else mFreeBoxOffset w)\<rparr>)),
                     (\<lambda>w. Inr (fseeko (mFreeBoxOffset w) w)),
                     (\<lambda>w. writeInt32 (int (mEstimatedMoovBoxSize w) - int (mMoovBoxBufferOffset w)) w),
                     write_bytes (bytes_of ''free''),
                     (\<lambda>w. Inr (w\<lparr>mMoovBoxBuffer := None, mMoovBoxBufferOffset := 0\<rparr>))]
                  ((fseeko (mFreeBoxOffset w) w)\<lparr>mOffset := mFreeBoxOffset w\<rparr>)))
      else Inr w)"

text \<open>\<^verbatim>\<open>MPEG4Writer::stop\<close>. The buffer that \<^verbatim>\<open>malloc\<close> returns starts as zeros here; only
  bytes that were written to it are ever read.\<close>

definition stop :: "int \<Rightarrow> writer \<times> track list \<Rightarrow> error + writer \<times> track list" where
  "stop now s =
     (case s of (w, mTracks) \<Rightarrow>
        if \<not> mFile w then Inr (w, mTracks)
        else
          (let mTracks1 = map Track_stop mTracks;
               max_duration =
                 fold (\<lambda>it m. if getDurationUs it > m then getDurationUs it else m) mTracks1 0;
               w1 = fseeko (mMdatOffset w + 8) w;
               w2 = fwrite (be64 (int (mOffset w1) - int (mMdatOffset w1))) w1;
               w3 = fseeko (mOffset w2) w2;
               w4 = w3\<lparr>mWriteMoovBoxToMemory := True,
                       mMoovBoxBuffer := Some (\<lambda>_. 0),
                       mMoovBoxBufferOffset := 0\<rparr>
           in case run ([beginBox ''moov'']
                        @ write_mvhd now max_duration (length mTracks1)
                        @ concat (map (\<lambda>(it, id). writeTrackHeader_calls now (int id) it)
                                    (zip mTracks1 [1 ..< length mTracks1 + 1]))
                        @ [endBox,
                           (\<lambda>w. Inr (w\<lparr>mWriteMoovBoxToMemory := False\<rparr>)),
                           place_moov,
                           (\<lambda>w. if mBoxes w = [] then Inr w
                                 else Inl (CheckFailed ''mBoxes.empty()'')),
                           (\<lambda>w. Inr (w\<lparr>mFile := False\<rparr>))])
                     w4 of
                Inl e \<Rightarrow> Inl e
              | Inr w5 \<Rightarrow> Inr (w5, mTracks1)))"

section \<open>What the tables and the boxes mean\<close>

text \<open>
  A box is its four-character code and its content, which is raw bytes and further
  boxes. \<open>emit\<close> writes one with \<open>beginBox\<close>, \<open>write_bytes\<close> and \<open>endBox\<close>, the way every
  box of the file is written; \<open>ser\<close> is the byte string that the box should be: the
  big-endian length of the whole box, the code, the content.
\<close>

datatype item = Raw "byte list" | Box string "item list"

fun emit :: "item \<Rightarrow> writer \<Rightarrow> error + writer"
  and emits :: "item list \<Rightarrow> writer \<Rightarrow> error + writer" where
  "emit (Raw bs) w = write_bytes bs w"
| "emit (Box fourcc items) w =
     (case beginBox fourcc w of
        Inl e \<Rightarrow> Inl e
      | Inr w1 \<Rightarrow> (case emits items w1 of Inl e \<Rightarrow> Inl e | Inr w2 \<Rightarrow> endBox w2))"
| "emits [] w = Inr w"
| "emits (i # items) w = (case emit i w of Inl e \<Rightarrow> Inl e | Inr w1 \<Rightarrow> emits items w1)"

fun size_of :: "item \<Rightarrow> nat"
  and sizes_of :: "item list \<Rightarrow> nat" where
  "size_of (Raw bs) = length bs"
| "size_of (Box fourcc items) = 8 + sizes_of items"
| "sizes_of [] = 0"
| "sizes_of (i # items) = size_of i + sizes_of items"

fun ser :: "item \<Rightarrow> byte list"
  and sers :: "item list \<Rightarrow> byte list" where
  "ser (Raw bs) = bs"
| "ser (Box fourcc items) = be32 (int (8 + sizes_of items)) @ bytes_of fourcc @ sers items"
| "sers [] = []"
| "sers (i # items) = ser i @ sers items"

fun fourcc_ok :: "item \<Rightarrow> bool"
  and fourccs_ok :: "item list \<Rightarrow> bool" where
  "fourcc_ok (Raw bs) = True"
| "fourcc_ok (Box fourcc items) = (length fourcc = 4 \<and> fourccs_ok items)"
| "fourccs_ok [] = True"
| "fourccs_ok (i # items) = (fourcc_ok i \<and> fourccs_ok items)"

text \<open>The calls that emit a box, one after the other, as the source writes them.\<close>

fun calls_of :: "item \<Rightarrow> (writer \<Rightarrow> error + writer) list" where
  "calls_of (Raw bs) = [write_bytes bs]"
| "calls_of (Box fourcc items) = [beginBox fourcc] @ concat (map calls_of items) @ [endBox]"

text \<open>The value of a big-endian field.\<close>

definition be_value :: "byte list \<Rightarrow> nat" where
  "be_value bs = foldl (\<lambda>n b. n * 256 + unat b) 0 bs"

text \<open>
  The number of samples that a sample-to-chunk table describes when the track has
  \<open>n\<close> chunks: an entry stands for the chunks from its \<open>firstChunk\<close> up to the chunk
  before the \<open>firstChunk\<close> of the next entry (the last entry up to chunk \<open>n\<close>), each of
  \<open>samplesPerChunk\<close> samples.
\<close>

fun stsc_samples :: "StscTableEntry list \<Rightarrow> nat \<Rightarrow> nat" where
  "stsc_samples [] n = 0"
| "stsc_samples [e] n = samplesPerChunk e * (n + 1 - firstChunk e)"
| "stsc_samples (e # e' # es) n =
     samplesPerChunk e * (firstChunk e' - firstChunk e) + stsc_samples (e' # es) n"

definition stts_samples :: "SttsTableEntry list \<Rightarrow> nat" where
  "stts_samples entries = sum_list (map stts_sampleCount entries)"

text \<open>The track in a result of an iteration of the producer loop.\<close>

definition iter_track :: "error + (writer \<times> track \<times> locals) iter \<Rightarrow> track option" where
  "iter_track r =
     (case r of
        Inl e \<Rightarrow> None
      | Inr (Continue s) \<Rightarrow> Some (fst (snd s))
      | Inr (Break s) \<Rightarrow> Some (fst (snd s)))"

text \<open>
  What holds of the tables of a track between two iterations of the loop. The entries of
  the time-to-sample table and the running count account for all samples but the last
  one; the sample-to-chunk table for \<open>nChunks\<close> chunks accounts for the samples that
  were flushed, \<open>mChunkSamples\<close> for the others (none when the interleave duration \<open>il\<close>
  is 0).
\<close>

definition stts_inv :: "track \<Rightarrow> locals \<Rightarrow> bool" where
  "stts_inv t l \<longleftrightarrow>
     (length (mSampleInfos t) \<le> 1 \<and> mSttsTableEntries t = [] \<and> sampleCount l = 1) \<or>
     (2 \<le> length (mSampleInfos t) \<and>
      stts_samples (mSttsTableEntries t) + sampleCount l + 1 = length (mSampleInfos t))"

definition stsc_inv :: "int \<Rightarrow> track \<Rightarrow> locals \<Rightarrow> bool" where
  "stsc_inv il t l \<longleftrightarrow>
     (il = 0 \<longrightarrow> mChunkSamples t = []) \<and>
     stsc_samples (mStscTableEntries t) (nChunks l) + length (mChunkSamples t)
       = length (mSampleInfos t) \<and>
     length (mChunkOffsets t) = nChunks l \<and>
     (mStscTableEntries t = [] \<longleftrightarrow> nChunks l = 0) \<and>
     (mStscTableEntries t \<noteq> [] \<longrightarrow> firstChunk (last (mStscTableEntries t)) \<le> nChunks l)"

definition tables ::
  "track \<Rightarrow> SampleInfo list \<times> SttsTableEntry list \<times> StscTableEntry list \<times> nat list \<times> byte list list" where
  "tables t =
     (mSampleInfos t, mSttsTableEntries t, mStscTableEntries t, mChunkOffsets t, mChunkSamples t)"

text \<open>
  The states in which the writer emits boxes: when the moov box goes to memory, the
  buffer is there and its offset leaves room for eight bytes (the test of
  \<open>write_bytes\<close>); otherwise the stream stands at the logical offset. \<open>stored_at w w' n\<close>
  are the \<open>n\<close> bytes written between the states \<open>w\<close> and \<open>w'\<close>, read where they lie
  in \<open>w'\<close>: in the buffer, in the file behind the flushed buffer when the writer fell
  back to the file in between, or in the file.
\<close>

definition writer_ok :: "writer \<Rightarrow> bool" where
  "writer_ok w \<longleftrightarrow>
     (if mWriteMoovBoxToMemory w
      then mMoovBoxBuffer w \<noteq> None \<and> 8 + mMoovBoxBufferOffset w \<le> mEstimatedMoovBoxSize w
      else fpos w = mOffset w)"

definition stored_at :: "writer \<Rightarrow> writer \<Rightarrow> nat \<Rightarrow> byte list" where
  "stored_at w w' n =
     (if mWriteMoovBoxToMemory w' then
        (case mMoovBoxBuffer w' of
           None \<Rightarrow> []
         | Some buf \<Rightarrow> read_at buf (mMoovBoxBufferOffset w) n)
      else if mWriteMoovBoxToMemory w then
        read_at (disk w') (mOffset w + mMoovBoxBufferOffset w) n
      else read_at (disk w') (mOffset w) n)"

text \<open>
  \<open>nesting d cs d'\<close>: the calls \<open>cs\<close>, met with \<open>d\<close> boxes open, close no box that is not
  open and leave \<open>d'\<close> boxes open. \<open>segments\<close> are the calls of item lists that lie in
  boxes still open: each list but the last is followed by the \<^verbatim>\<open>endBox\<close> of the box it
  lies in.
\<close>

inductive nesting :: "nat \<Rightarrow> (writer \<Rightarrow> error + writer) list \<Rightarrow> nat \<Rightarrow> bool" where
  nesting_done: "nesting d [] d"
| nesting_begin: "length fourcc = 4 \<Longrightarrow> nesting (Suc d) cs d' \<Longrightarrow> nesting d (beginBox fourcc # cs) d'"
| nesting_write: "nesting d cs d' \<Longrightarrow> nesting d (write_bytes bs # cs) d'"
| nesting_end: "nesting d cs d' \<Longrightarrow> nesting (Suc d) (endBox # cs) d'"



section \<open>Basic facts\<close>

lemma length_be16 [simp]: "length (be16 x) = 2"
  by (simp add: be16_def)

lemma length_be32 [simp]: "length (be32 x) = 4"
  by (simp add: be32_def)

lemma length_be64 [simp]: "length (be64 x) = 8"
  by (simp add: be64_def)

lemma length_bytes_of [simp]: "length (bytes_of s) = length s"
  by (simp add: bytes_of_def)

lemmas prim_defs =
  write_bytes_def writeInt32_def writeInt16_def writeInt8_def writeInt64_def
  writeFourcc_def writeCString_def beginBox_def endBox_def fseeko_def fwrite_def Let_def

lemma run_append:
  "run (xs @ ys) s = (case run xs s of Inl e \<Rightarrow> Inl e | Inr s1 \<Rightarrow> run ys s1)"
  by (induction xs arbitrary: s) (auto split: sum.splits)

lemma int64_id: "- (2 ^ 63) \<le> x \<Longrightarrow> x < 2 ^ 63 \<Longrightarrow> int64 x = x"
  unfolding int64_def by (simp add: mod_pos_pos_trivial)

lemma tdiv_nonneg: "0 \<le> a \<Longrightarrow> 0 < b \<Longrightarrow> tdiv a b = a div b"
  unfolding tdiv_def by (cases "a = 0") (simp_all add: sgn_if)

section \<open>The start timestamp\<close>

lemma start_resets_timestamp:
  "start (w, ts) = Inr (OK, w', ts') \<Longrightarrow> mStartTimestampUs w' = 0"
  by (auto simp: start_def prim_defs split: if_splits sum.splits prod.splits)

lemma setStartTimestamp_nonzero_first:
  "mStartTimestampUs w = 0 \<Longrightarrow> a \<noteq> 0 \<Longrightarrow>
   mStartTimestampUs (setStartTimestamp a w) = a \<and>
   setStartTimestamp b (setStartTimestamp a w) = setStartTimestamp a w"
  by (simp add: setStartTimestamp_def)

text \<open>
  C4. The claim: the first call of \<open>setStartTimestamp\<close> fixes the start timestamp of the
  writer, and every later call leaves it unchanged. The code takes the value 0 for
  "not set yet": when the first track reports the timestamp 0, the next call is
  taken for the first one and overwrites it. After \<open>start\<close>, a call with 0 followed by
  a call with 200000 leaves 200000 in the writer.
\<close>

theorem start_timestamp_zero_overwritten:
  "start (w, ts) = Inr (OK, w', ts') \<Longrightarrow>
   mStartTimestampUs (setStartTimestamp 0 w') = 0 \<and>
   mStartTimestampUs (setStartTimestamp 200000 (setStartTimestamp 0 w')) = 200000"
  by (drule start_resets_timestamp) (simp add: setStartTimestamp_def)

theorem start_timestamp_zero_overwritten_witness:
  "\<exists>w'. start (MPEG4Writer_new, []) = Inr (OK, w', []) \<and>
     mStartTimestampUs (setStartTimestamp 0 w') = 0 \<and>
     mStartTimestampUs (setStartTimestamp 200000 (setStartTimestamp 0 w')) = 200000"
proof -
  obtain w' where w': "start (MPEG4Writer_new, []) = Inr (OK, w', [])"
    by (simp add: start_def MPEG4Writer_new_def prim_defs)
  from start_timestamp_zero_overwritten [OF w'] w' show ?thesis by blast
qed

section \<open>The timestamp of a sample\<close>

lemma writeOneChunk_infos:
  "writeOneChunk a (w, t) = (w', t') \<Longrightarrow> mSampleInfos t' = mSampleInfos t"
  by (auto simp: writeOneChunk_def split: prod.splits)

lemma chunk_step_infos:
  "chunk_step il a ts (w, t, l) = Inr (w', t', l') \<Longrightarrow> mSampleInfos t' = mSampleInfos t"
  by (auto simp: chunk_step_def Let_def split: if_splits prod.splits dest!: writeOneChunk_infos)

lemma steps_infos:
  "same_size_step sz (stts_step x (t, l)) = (t', l') \<Longrightarrow> mSampleInfos t' = mSampleInfos t"
  by (auto simp: same_size_step_def stts_step_def split: if_splits)

lemma process_sample_infos:
  assumes "process_sample il is_avc before after buffer data (w, tr, l) = Inr (Continue (w', tr', l'))"
  shows "\<exists>t sz. kKeyTime buffer = Some t \<and>
     mSampleInfos tr' = mSampleInfos tr @ [SampleInfo sz (tdiv (int64 (t + 500)) 1000)]"
proof -
  obtain t where t: "kKeyTime buffer = Some t"
    using assms by (auto simp: process_sample_def Let_def split: if_splits option.splits)
  obtain w1 t7 l2 where a: "accept_sample (case kKeyIsSyncFrame buffer of None \<Rightarrow> 0 | Some v \<Rightarrow> v) t
      (if is_avc then StripStartcode data else data)
      (if is_avc then length (StripStartcode data) + 4 else length data)
      (w, tr\<lparr>mEstimatedTrackSizeBytes := int64 (mEstimatedTrackSizeBytes tr +
          int (if is_avc then length (StripStartcode data) + 4 else length data))\<rparr>, l) = (w1, t7, l2)"
    by (metis prod_cases3)
  then have "\<exists>sz. mSampleInfos t7 = mSampleInfos tr @ [SampleInfo sz (tdiv (int64 (t + 500)) 1000)]"
    by (auto simp: accept_sample_def Let_def split: prod.splits if_splits dest!: steps_infos)
  moreover have "chunk_step il is_avc t (w1, t7, l2) = Inr (w', tr', l')"
    using assms t a
    by (auto simp: process_sample_def Let_def split: if_splits sum.splits)
  ultimately show ?thesis
    using t by (auto dest!: chunk_step_infos)
qed

lemma makeAVC_infos:
  "makeAVCCodecSpecificData data t = (err, t') \<Longrightarrow> mSampleInfos t' = mSampleInfos t"
  by (auto simp: makeAVCCodecSpecificData_def Let_def split: if_splits)

lemma config_sample_infos:
  "config_sample a m data t = Inr t' \<Longrightarrow> mSampleInfos t' = mSampleInfos t"
  by (auto simp: config_sample_def split: if_splits prod.splits dest!: makeAVC_infos)

lemma mpeg4_unflagged_infos:
  "mpeg4_unflagged data t = (t', rest) \<Longrightarrow> mSampleInfos t' = mSampleInfos t"
  by (auto simp: mpeg4_unflagged_def Let_def)

lemma avc_unflagged_infos:
  "avc_unflagged c data t = Inr t' \<Longrightarrow> mSampleInfos t' = mSampleInfos t"
  by (auto simp: avc_unflagged_def Let_def split: if_splits prod.splits dest!: makeAVC_infos)

lemma classify_infos:
  "classify is_avc is_mpeg4 cnt buffer t = Inr d \<Longrightarrow>
   (case d of Skip t1 \<Rightarrow> mSampleInfos t1 = mSampleInfos t
            | Take data t1 \<Rightarrow> mSampleInfos t1 = mSampleInfos t)"
  by (auto simp: classify_def split: if_splits sum.splits prod.splits
           dest!: config_sample_infos avc_unflagged_infos mpeg4_unflagged_infos)

lemma loop_body_infos:
  assumes "loop_body il is_avc is_mpeg4 before after buffer (w, tr, l) = Inr (Continue (w', tr', l'))"
  shows "mSampleInfos tr' = mSampleInfos tr \<or>
    (\<exists>t sz. kKeyTime buffer = Some t \<and>
       mSampleInfos tr' = mSampleInfos tr @ [SampleInfo sz (tdiv (int64 (t + 500)) 1000)])"
proof (cases "length (range_data buffer) = 0")
  case True
  with assms show ?thesis by (simp add: loop_body_def)
next
  case False
  let ?l1 = "l\<lparr>count := count l + 1\<rparr>"
  from assms False obtain d where d: "classify is_avc is_mpeg4 (count ?l1) buffer tr = Inr d"
    by (auto simp: loop_body_def Let_def split: sum.splits)
  show ?thesis
  proof (cases d)
    case (Skip t1)
    with assms False d classify_infos [OF d] show ?thesis
      by (simp add: loop_body_def Let_def)
  next
    case (Take data t1)
    with assms False d have
      "process_sample il is_avc before after buffer data (w, t1, ?l1) = Inr (Continue (w', tr', l'))"
      by (simp add: loop_body_def Let_def)
    from process_sample_infos [OF this] classify_infos [OF d] Take show ?thesis
      by simp
  qed
qed

text \<open>
  C8. The claim: for every accepted sample with timestamp \<open>t \<ge> 0\<close> in microseconds, the
  timestamp stored in its \<open>SampleInfo\<close> is \<open>(t + 500) / 1000\<close>, that is \<open>t\<close> rounded to the
  nearest millisecond, halves up. The sum \<open>t + 500\<close> is a 64-bit signed sum, so this
  holds for \<open>t \<le> 2\<^sup>6\<^sup>3 - 501\<close>: an iteration of the loop either leaves \<open>mSampleInfos\<close> as
  it is or appends one entry, whose timestamp \<open>ms\<close> is \<open>(t + 500) div 1000\<close>, with
  \<open>t\<close> in the half-open millisecond around it.
\<close>

theorem sample_timestamp_rounded:
  assumes "loop_body il is_avc is_mpeg4 before after buffer (w, tr, l) = Inr (Continue (w', tr', l'))"
    and "kKeyTime buffer = Some t" and "0 \<le> t" and "t \<le> 2 ^ 63 - 501"
  shows "mSampleInfos tr' = mSampleInfos tr \<or>
    (\<exists>sz ms. mSampleInfos tr' = mSampleInfos tr @ [SampleInfo sz ms] \<and>
       ms = (t + 500) div 1000 \<and> 1000 * ms - 500 \<le> t \<and> t < 1000 * ms + 500)"
proof -
  have "int64 (t + 500) = t + 500"
    using assms(3,4) by (intro int64_id) simp_all
  then have "tdiv (int64 (t + 500)) 1000 = (t + 500) div 1000"
    using assms(3) by (simp add: tdiv_nonneg)
  moreover have "1000 * ((t + 500) div 1000) - 500 \<le> t \<and> t < 1000 * ((t + 500) div 1000) + 500"
  proof -
    have "0 \<le> (t + 500) mod 1000" and "(t + 500) mod 1000 < 1000"
      by simp_all
    moreover have "t + 500 = 1000 * ((t + 500) div 1000) + (t + 500) mod 1000"
      by simp
    ultimately show ?thesis by linarith
  qed
  ultimately show ?thesis
    using loop_body_infos [OF assms(1)] assms(2) by auto
qed

lemmas loop_eval_defs =
  loop_body_def classify_def process_sample_def accept_sample_def isCodecConfig_def Track_new_def MPEG4Writer_new_def
  locals_init_def exceedsFileSizeLimit_def exceedsFileDurationLimit_def setStartTimestamp_def
  getStartTimestamp_def int64_def tdiv_def stts_step_def same_size_step_def chunk_step_def
  writeOneChunk_def add_sample_def addSample_l_def addLengthPrefixedSample_l_def fwrite_def
  notify_def uint32_def Let_def

theorem sample_timestamp_rounded_witness:
  "\<exists>w' tr' l'.
     loop_body 500000 False False [] []
       \<lparr>range_data = [7], kKeyIsCodecConfig = None, kKeyIsSyncFrame = None, kKeyTime = Some 1500\<rparr>
       (MPEG4Writer_new, Track_new (Some ''audio/3gpp'') None None (Some 1) (Some 8000) OK 0 0,
        locals_init) = Inr (Continue (w', tr', l')) \<and>
     mSampleInfos tr' = [SampleInfo 1 2]"
proof -
  let ?b = "\<lparr>range_data = [7], kKeyIsCodecConfig = None, kKeyIsSyncFrame = None,
             kKeyTime = Some 1500\<rparr>"
  let ?t = "Track_new (Some ''audio/3gpp'') None None (Some 1) (Some 8000) OK 0 0"
  obtain w' tr' l' where r:
    "loop_body 500000 False False [] [] ?b (MPEG4Writer_new, ?t, locals_init) = Inr (Continue (w', tr', l'))"
    "length (mSampleInfos tr') = 1" "info_size (hd (mSampleInfos tr')) = 1"
    by (simp add: loop_eval_defs)
  have "mSampleInfos ?t = []"
    by (simp add: Track_new_def)
  with sample_timestamp_rounded [OF r(1), of 1500] r(2,3) have "mSampleInfos tr' = [SampleInfo 1 2]"
    by auto
  with r(1) show ?thesis by blast
qed

theorem sample_timestamp_overflow:
  "map_option (map info_timestamp \<circ> mSampleInfos)
     (iter_track
        (loop_body 500000 False False [] []
           \<lparr>range_data = [7], kKeyIsCodecConfig = None, kKeyIsSyncFrame = None,
            kKeyTime = Some 9223372036854775807\<rparr>
           (MPEG4Writer_new, Track_new (Some ''audio/3gpp'') None None (Some 1) (Some 8000) OK 0 0,
            locals_init)))
     = Some [- 9223372036854775] \<and>
   (9223372036854775807 + 500) div 1000 = (9223372036854776 :: int)"
  by (simp add: loop_eval_defs iter_track_def)

section \<open>Stopping twice\<close>

lemma stop_closes: "stop now s = Inr s' \<Longrightarrow> \<not> mFile (fst s')"
  by (cases s) (auto simp: stop_def Let_def run_append split: if_splits sum.splits)

text \<open>
  C9. \<open>stop\<close> is idempotent: when one call of \<open>stop\<close> has completed, a second call
  returns at once and leaves the writer, its tracks and the output file as they are.
\<close>

theorem stop_idempotent: "stop now s = Inr s' \<Longrightarrow> stop now' s' = Inr s'"
  using stop_closes [of now s s'] by (cases s') (simp add: stop_def)

theorem stop_idempotent_witness:
  "\<exists>w s'. start (MPEG4Writer_new, []) = Inr (OK, w, []) \<and>
     stop 0 (w, []) = Inr s' \<and> stop 1 s' = Inr s'"
proof -
  obtain w where w: "start (MPEG4Writer_new, []) = Inr (OK, w, [])" "mFile w"
    "mMoovBoxBuffer w = None" "mEstimatedMoovBoxSize w = 3840" "mBoxes w = []"
    "mStreamableFile w" "\<not> mWriteMoovBoxToMemory w"
    by (simp add: start_def MPEG4Writer_new_def prim_defs)
  have "\<exists>s'. stop 0 (w, []) = Inr s'"
    using w(2-) by (simp add: stop_def prim_defs write_mvhd_def matrix_def place_moov_def)
  then obtain s' where s': "stop 0 (w, []) = Inr s'"
    by blast
  from stop_idempotent [OF s'] w(1) s' show ?thesis by blast
qed

section \<open>Closing a box in the file\<close>

text \<open>
  C10. When the moov box is not written to memory, \<open>endBox\<close> leaves the logical offset
  of the writer as it was: it seeks to the saved position, writes the four bytes of the
  length there, takes the four bytes off \<open>mOffset\<close> again and seeks back. No other byte
  of the file changes. (With an empty stack of boxes the \<^verbatim>\<open>CHECK\<close> aborts.)
\<close>

theorem endBox_file_keeps_offset:
  assumes "\<not> mWriteMoovBoxToMemory w" and "mBoxes w \<noteq> []"
  shows "\<exists>w'. endBox w = Inr w' \<and> mOffset w' = mOffset w \<and> fpos w' = mOffset w
     \<and> mBoxes w' = butlast (mBoxes w)
     \<and> read_at (disk w') (last (mBoxes w)) 4 = be32 (int (mOffset w) - int (last (mBoxes w)))
     \<and> (\<forall>i. i < last (mBoxes w) \<or> last (mBoxes w) + 4 \<le> i \<longrightarrow> disk w' i = disk w i)"
  using assms
  apply (simp add: prim_defs write_at_def read_at_def be32_def)
  apply (simp add: upt_rec)
  done

theorem endBox_file_keeps_offset_witness:
  "\<exists>w'. endBox (MPEG4Writer_new\<lparr>mBoxes := [0], mOffset := 20, fpos := 20\<rparr>) = Inr w'
     \<and> mOffset w' = 20 \<and> fpos w' = 20 \<and> mBoxes w' = []
     \<and> read_at (disk w') 0 4 = [0, 0, 0, 20]
     \<and> (\<forall>i. 4 \<le> i \<longrightarrow> disk w' i = 0)"
  using endBox_file_keeps_offset [of "MPEG4Writer_new\<lparr>mBoxes := [0], mOffset := 20, fpos := 20\<rparr>"]
  by (simp add: MPEG4Writer_new_def be32_def)

section \<open>The AVC decoder configuration record\<close>

lemma find_startcode_ge: "k \<le> find_startcode data k"
proof (induction data k rule: find_startcode.induct)
  case (1 data k)
  then show ?case
    by (subst find_startcode.simps) (auto simp: le_Suc_eq)
qed

lemma find_startcode_found:
  "find_startcode data k + 3 < length data \<Longrightarrow>
   take 4 (drop (find_startcode data k) data) = startcode"
proof (induction data k rule: find_startcode.induct)
  case (1 data k)
  then show ?case
    by (subst (asm) find_startcode.simps, subst find_startcode.simps) (auto split: if_splits)
qed

lemma find_startcode_first:
  "k \<le> q \<Longrightarrow> q < find_startcode data k \<Longrightarrow>
   take 4 (drop q data) \<noteq> startcode \<and> q + 3 < length data"
proof (induction data k rule: find_startcode.induct)
  case (1 data k)
  show ?case
  proof (cases "k + 3 < length data \<and> take 4 (drop k data) \<noteq> startcode")
    case True
    then have eq: "find_startcode data k = find_startcode data (k + 1)"
      by (subst find_startcode.simps) simp
    show ?thesis
    proof (cases "q = k")
      case True
      with \<open>k + 3 < length data \<and> take 4 (drop k data) \<noteq> startcode\<close> show ?thesis by simp
    next
      case False
      with "1.prems" eq True "1.IH" show ?thesis by auto
    qed
  next
    case False
    then have "find_startcode data k = k"
      by (subst find_startcode.simps) auto
    with "1.prems" show ?thesis by simp
  qed
qed

lemma find_startcode_eq:
  assumes "k \<le> p" "p + 4 \<le> length data" "take 4 (drop p data) = startcode"
    "\<forall>q. k \<le> q \<and> q < p \<longrightarrow> take 4 (drop q data) \<noteq> startcode"
  shows "find_startcode data k = p"
proof (rule ccontr)
  assume ne: "find_startcode data k \<noteq> p"
  show False
  proof (cases "find_startcode data k < p")
    case True
    then have "find_startcode data k + 3 < length data" using assms(2) by simp
    from find_startcode_found [OF this] assms(4) True find_startcode_ge [of k data]
    show False by blast
  next
    case False
    with ne have "p < find_startcode data k" by simp
    from find_startcode_first [OF assms(1) this] assms(3) show False by simp
  qed
qed

lemma find_startcode_exists:
  "find_startcode data k + 3 < length data \<longleftrightarrow>
   (\<exists>q. k \<le> q \<and> q + 4 \<le> length data \<and> take 4 (drop q data) = startcode)"
proof
  assume a: "find_startcode data k + 3 < length data"
  show "\<exists>q. k \<le> q \<and> q + 4 \<le> length data \<and> take 4 (drop q data) = startcode"
    using find_startcode_found [OF a] find_startcode_ge [of k data] a
    by (intro exI [of _ "find_startcode data k"]) simp
next
  assume "\<exists>q. k \<le> q \<and> q + 4 \<le> length data \<and> take 4 (drop q data) = startcode"
  then obtain q where q: "k \<le> q" "q + 4 \<le> length data" "take 4 (drop q data) = startcode"
    by blast
  show "find_startcode data k + 3 < length data"
  proof (rule ccontr)
    assume "\<not> find_startcode data k + 3 < length data"
    with q(2) have "q < find_startcode data k" by simp
    from find_startcode_first [OF q(1) this] q(3) show False by simp
  qed
qed

lemma be16_nat: "be16 (int n) = [of_nat (n div 2 ^ 8), of_nat n]"
proof -
  have "int n div 2 ^ 8 = int (n div 2 ^ 8)"
    by (simp add: zdiv_int)
  then show ?thesis
    unfolding be16_def by (simp only: of_int_of_nat_eq)
qed


lemma be_value_be16: "n < 2 ^ 16 \<Longrightarrow> be_value (be16 (int n)) = n"
proof -
  assume n: "n < 2 ^ 16"
  then have "n div 256 < 256" by simp
  then have "unat (of_nat (n div 256) :: byte) = n div 256"
    by (simp add: unat_of_nat)
  moreover have "unat (of_nat n :: byte) = n mod 256"
    by (simp add: unat_of_nat)
  ultimately show ?thesis
    by (simp add: be16_nat be_value_def)
qed

lemma no_startcode_inside:
  assumes "take 4 data = startcode" "0 < q" "q < 4"
  shows "take 4 (drop q data) \<noteq> startcode"
proof -
  have "data = startcode @ drop 4 data"
    using assms(1) append_take_drop_id [of 4 data] by simp
  then obtain r where d: "data = 0 # 0 # 0 # 1 # r"
    by (simp add: startcode_def)
  from assms(2,3) have "q = 1 \<or> q = 2 \<or> q = 3" by arith
  then show ?thesis
    by (auto simp: d startcode_def take_Cons' drop_Cons')
qed

text \<open>
  C7. \<open>makeAVCCodecSpecificData\<close> returns \<open>ERROR_MALFORMED\<close> exactly when codec specific
  data was captured before, or the input is shorter than four bytes or does not begin
  with the start code, or no second start code lies before the end of the input; in
  every other case it returns \<open>OK\<close>. When it returns the error, the track is unchanged:
  no record is stored.
\<close>

theorem makeAVC_malformed_iff:
  "(fst (makeAVCCodecSpecificData data t) = ERROR_MALFORMED \<longleftrightarrow>
      mCodecSpecificData t \<noteq> None \<or> length data < 4 \<or> take 4 data \<noteq> startcode \<or>
      \<not> (\<exists>q. 0 < q \<and> q + 4 \<le> length data \<and> take 4 (drop q data) = startcode))
   \<and> (fst (makeAVCCodecSpecificData data t) \<noteq> ERROR_MALFORMED \<longrightarrow>
        fst (makeAVCCodecSpecificData data t) = OK)
   \<and> (fst (makeAVCCodecSpecificData data t) = ERROR_MALFORMED \<longrightarrow>
        snd (makeAVCCodecSpecificData data t) = t)"
proof -
  have second: "(\<exists>q. 0 < q \<and> q + 4 \<le> length data \<and> take 4 (drop q data) = startcode) \<longleftrightarrow>
      find_startcode data 4 + 3 < length data" if "take 4 data = startcode"
  proof -
    have "(\<exists>q. 0 < q \<and> q + 4 \<le> length data \<and> take 4 (drop q data) = startcode) \<longleftrightarrow>
          (\<exists>q. 4 \<le> q \<and> q + 4 \<le> length data \<and> take 4 (drop q data) = startcode)"
      using no_startcode_inside [OF that] by (metis not_le_imp_less less_le_trans zero_less_numeral)
    then show ?thesis
      by (simp add: find_startcode_exists)
  qed
  show ?thesis
    using second
    by (auto simp: makeAVCCodecSpecificData_def Let_def not_less)
qed

theorem makeAVC_malformed_iff_witness:
  "fst (makeAVCCodecSpecificData [0, 0, 0, 1, 0x67, 0x42]
          (Track_new (Some ''video/avc'') (Some 176) (Some 144) None None OK 0 0)) = ERROR_MALFORMED
   \<and> snd (makeAVCCodecSpecificData [0, 0, 0, 1, 0x67, 0x42]
          (Track_new (Some ''video/avc'') (Some 176) (Some 144) None None OK 0 0)) =
       Track_new (Some ''video/avc'') (Some 176) (Some 144) None None OK 0 0
   \<and> fst (makeAVCCodecSpecificData [0, 0, 0, 1, 0x67, 0, 0, 0, 1, 0x68]
          (Track_new (Some ''video/avc'') (Some 176) (Some 144) None None OK 0 0)) = OK"
proof -
  let ?t = "Track_new (Some ''video/avc'') (Some 176) (Some 144) None None OK 0 0"
  let ?bad = "[0, 0, 0, 1, 0x67, 0x42] :: byte list"
  let ?good = "[0, 0, 0, 1, 0x67, 0, 0, 0, 1, 0x68] :: byte list"
  have none: "\<not> (\<exists>q. 0 < q \<and> q + 4 \<le> length ?bad \<and> take 4 (drop q ?bad) = startcode)"
  proof
    assume "\<exists>q. 0 < q \<and> q + 4 \<le> length ?bad \<and> take 4 (drop q ?bad) = startcode"
    then obtain q where q: "0 < q" "q + 4 \<le> length ?bad" "take 4 (drop q ?bad) = startcode"
      by blast
    then have "q = 1 \<or> q = 2" by (simp, arith)
    with q(3) show False by (auto simp: startcode_def)
  qed
  have some: "\<exists>q. 0 < q \<and> q + 4 \<le> length ?good \<and> take 4 (drop q ?good) = startcode"
    by (intro exI [of _ 5]) (simp add: startcode_def)
  have fresh: "mCodecSpecificData ?t = None"
    by (simp add: Track_new_def)
  have shape: "\<not> length ?good < 4" "take 4 ?good = startcode"
    "\<not> length ?bad < 4" "take 4 ?bad = startcode"
    by (simp_all add: startcode_def)
  from makeAVC_malformed_iff [of ?bad ?t] none
  have bad: "fst (makeAVCCodecSpecificData ?bad ?t) = ERROR_MALFORMED"
    "snd (makeAVCCodecSpecificData ?bad ?t) = ?t"
    by blast+
  from makeAVC_malformed_iff [of ?good ?t] some fresh shape(1,2)
  have "fst (makeAVCCodecSpecificData ?good ?t) = OK"
    by blast
  with bad show ?thesis by blast
qed

text \<open>
  C6. The claim: for every input that begins with the start code and has one further
  start code, at position \<open>p\<close>, the function produces the record
  \<open>01 42 80 1E FF E1\<close>, the 16-bit length of the SPS, the SPS (the input from 4 up to
  \<open>p\<close>), \<open>01\<close>, the 16-bit length of the PPS, the PPS (the input from \<open>p + 4\<close> on), of
  \<open>11 + SPS length + PPS length\<close> bytes. This holds for a track that has no codec specific
  data yet (a track that has some keeps it, and the call returns the error), and \<open>p\<close>
  need only be the first further start code. The two length fields are the low 16 bits
  of the lengths, which are the lengths when these are below \<open>2\<^sup>1\<^sup>6\<close>.
\<close>

theorem avcc_record_layout:
  assumes "mCodecSpecificData t = None"
    and "take 4 data = startcode"
    and "4 \<le> p" and "p + 4 \<le> length data" and "take 4 (drop p data) = startcode"
    and "\<forall>q. 4 \<le> q \<and> q < p \<longrightarrow> take 4 (drop q data) \<noteq> startcode"
  shows "makeAVCCodecSpecificData data t =
      (OK, t\<lparr>mCodecSpecificDataSize := 11 + (p - 4) + (length data - p - 4),
             mCodecSpecificData :=
               Some ([0x01, 0x42, 0x80, 0x1E, 0xFF, 0xE1] @ be16 (int (p - 4))
                     @ take (p - 4) (drop 4 data)
                     @ [0x01] @ be16 (int (length data - p - 4))
                     @ drop (p + 4) data)\<rparr>)
    \<and> length ([0x01, 0x42, 0x80, 0x1E, 0xFF, 0xE1] @ be16 (int (p - 4))
               @ take (p - 4) (drop 4 data)
               @ [0x01] @ be16 (int (length data - p - 4))
               @ drop (p + 4) data) = 11 + (p - 4) + (length data - p - 4)
    \<and> (p - 4 < 2 ^ 16 \<longrightarrow> be_value (be16 (int (p - 4))) = p - 4)
    \<and> (length data - p - 4 < 2 ^ 16 \<longrightarrow>
         be_value (be16 (int (length data - p - 4))) = length data - p - 4)"
proof -
  have f: "find_startcode data 4 = p"
    using assms(3-6) by (intro find_startcode_eq) auto
  have len: "\<not> length data < 4" "\<not> length data \<le> p + 3"
    using assms(3,4) by simp_all
  have "makeAVCCodecSpecificData data t =
      (OK, t\<lparr>mCodecSpecificDataSize := 11 + (p - 4) + (length data - p - 4),
             mCodecSpecificData :=
               Some ([0x01, 0x42, 0x80, 0x1E, 0xFF, 0xE1] @ be16 (int (p - 4))
                     @ take (p - 4) (drop 4 data)
                     @ [0x01] @ be16 (int (length data - p - 4))
                     @ drop (p + 4) data)\<rparr>)"
    unfolding makeAVCCodecSpecificData_def Let_def f be16_nat
    using assms(1,2) len by simp
  moreover have "length ([0x01, 0x42, 0x80, 0x1E, 0xFF, 0xE1] @ be16 (int (p - 4))
               @ take (p - 4) (drop 4 data)
               @ [0x01] @ be16 (int (length data - p - 4))
               @ drop (p + 4) data) = 11 + (p - 4) + (length data - p - 4)"
    using assms(3,4) by simp
  ultimately show ?thesis
    using be_value_be16 by blast
qed

theorem avcc_record_layout_witness:
  "makeAVCCodecSpecificData [0, 0, 0, 1, 0x67, 0x42, 0, 0, 0, 1, 0x68, 0xCE]
     (Track_new (Some ''video/avc'') (Some 176) (Some 144) None None OK 0 0) =
   (OK, (Track_new (Some ''video/avc'') (Some 176) (Some 144) None None OK 0 0)
          \<lparr>mCodecSpecificDataSize := 15,
           mCodecSpecificData :=
             Some [0x01, 0x42, 0x80, 0x1E, 0xFF, 0xE1, 0, 2, 0x67, 0x42, 0x01, 0, 2, 0x68, 0xCE]\<rparr>)"
proof -
  let ?d = "[0, 0, 0, 1, 0x67, 0x42, 0, 0, 0, 1, 0x68, 0xCE] :: byte list"
  let ?t = "Track_new (Some ''video/avc'') (Some 176) (Some 144) None None OK 0 0"
  have first: "\<forall>q. 4 \<le> q \<and> q < 6 \<longrightarrow> take 4 (drop q ?d) \<noteq> startcode"
  proof (intro allI impI)
    fix q :: nat
    assume "4 \<le> q \<and> q < 6"
    then have "q = 4 \<or> q = 5" by arith
    then show "take 4 (drop q ?d) \<noteq> startcode"
      by (auto simp: startcode_def)
  qed
  have "mCodecSpecificData ?t = None"
    by (simp add: Track_new_def)
  from avcc_record_layout [OF this _ _ _ _ first] show ?thesis
    by (simp add: startcode_def be16_def)
qed

theorem avcc_record_not_replaced:
  "makeAVCCodecSpecificData [0, 0, 0, 1, 0x67, 0x42, 0, 0, 0, 1, 0x68, 0xCE]
     ((Track_new (Some ''video/avc'') (Some 176) (Some 144) None None OK 0 0)
        \<lparr>mCodecSpecificDataSize := 1, mCodecSpecificData := Some [0x01]\<rparr>) =
   (ERROR_MALFORMED,
    (Track_new (Some ''video/avc'') (Some 176) (Some 144) None None OK 0 0)
        \<lparr>mCodecSpecificDataSize := 1, mCodecSpecificData := Some [0x01]\<rparr>)"
  by (simp add: makeAVCCodecSpecificData_def)

section \<open>The tables of a track\<close>

lemma stts_inv_tables:
  "tables t' = tables t \<Longrightarrow> sampleCount l' = sampleCount l \<Longrightarrow> stts_inv t' l' = stts_inv t l"
  by (simp add: tables_def stts_inv_def)

lemma stsc_inv_tables:
  "tables t' = tables t \<Longrightarrow> nChunks l' = nChunks l \<Longrightarrow> stsc_inv il t' l' = stsc_inv il t l"
  by (simp add: tables_def stsc_inv_def)

lemma makeAVC_tables: "makeAVCCodecSpecificData data t = (err, t') \<Longrightarrow> tables t' = tables t"
  by (auto simp: makeAVCCodecSpecificData_def Let_def tables_def split: if_splits)

lemma config_sample_tables: "config_sample a m data t = Inr t' \<Longrightarrow> tables t' = tables t"
  by (auto simp: config_sample_def tables_def split: if_splits prod.splits dest!: makeAVC_tables)

lemma mpeg4_unflagged_tables: "mpeg4_unflagged data t = (t', rest) \<Longrightarrow> tables t' = tables t"
  by (auto simp: mpeg4_unflagged_def Let_def tables_def)

lemma avc_unflagged_tables: "avc_unflagged c data t = Inr t' \<Longrightarrow> tables t' = tables t"
  by (auto simp: avc_unflagged_def Let_def tables_def split: if_splits prod.splits
           dest!: makeAVC_tables)

lemma classify_tables:
  "classify is_avc is_mpeg4 cnt buffer t = Inr d \<Longrightarrow>
   (case d of Skip t1 \<Rightarrow> tables t1 = tables t | Take data t1 \<Rightarrow> tables t1 = tables t)"
  by (auto simp: classify_def tables_def split: if_splits sum.splits prod.splits
           dest!: config_sample_tables avc_unflagged_tables mpeg4_unflagged_tables)

lemma add_samples_length: "length (fst (add_samples a xs w)) = length xs"
proof (induction xs arbitrary: w)
  case Nil
  show ?case by simp
next
  case (Cons x xs)
  obtain off w1 where s1: "add_sample a x w = (off, w1)"
    by (cases "add_sample a x w")
  obtain offs w2 where s2: "add_samples a xs w1 = (offs, w2)"
    by (cases "add_samples a xs w1")
  from Cons [of w1] s2 have "length offs = length xs" by simp
  with s1 s2 show ?case by simp
qed

lemma writeOneChunk_fields:
  assumes "writeOneChunk a (w, t) = (w', t')"
  shows "mSampleInfos t' = mSampleInfos t \<and> mSttsTableEntries t' = mSttsTableEntries t \<and>
    mStscTableEntries t' = mStscTableEntries t \<and> mChunkSamples t' = [] \<and>
    length (mChunkOffsets t') = length (mChunkOffsets t) + (if mChunkSamples t = [] then 0 else 1)"
proof -
  have tb: "t' = t\<lparr>mChunkOffsets := mChunkOffsets t @ take 1 (fst (add_samples a (mChunkSamples t) w)),
                  mChunkSamples := []\<rparr>"
    using assms by (auto simp: writeOneChunk_def split: prod.splits)
  have "length (fst (add_samples a (mChunkSamples t) w)) = length (mChunkSamples t)"
    by (rule add_samples_length)
  then have "length (take 1 (fst (add_samples a (mChunkSamples t) w))) =
      (if mChunkSamples t = [] then 0 else 1)"
    by (cases "fst (add_samples a (mChunkSamples t) w)") auto
  with tb show ?thesis by simp
qed

lemma stsc_samples_snoc:
  "stsc_samples (es @ [StscTableEntry (Suc n) s d]) (Suc n) = stsc_samples es n + s"
  by (induction es n rule: stsc_samples.induct) auto

lemma stsc_samples_next:
  "es \<noteq> [] \<Longrightarrow> firstChunk (last es) \<le> n \<Longrightarrow>
   stsc_samples es (Suc n) = stsc_samples es n + samplesPerChunk (last es)"
  by (induction es n rule: stsc_samples.induct) (auto simp: Suc_diff_le)

lemma stts_samples_snoc [simp]:
  "stts_samples (es @ [SttsTableEntry c d]) = stts_samples es + c"
  by (simp add: stts_samples_def)

lemma steps_effect:
  assumes "same_size_step sz (stts_step ms (t4, l)) = (t5, l1)"
  shows "mSampleInfos t5 = mSampleInfos t4 \<and> mStscTableEntries t5 = mStscTableEntries t4 \<and>
    mChunkOffsets t5 = mChunkOffsets t4 \<and> mChunkSamples t5 = mChunkSamples t4 \<and>
    nChunks l1 = nChunks l \<and>
    (if length (mSampleInfos t4) > 2
     then stts_samples (mSttsTableEntries t5) + sampleCount l1 =
          stts_samples (mSttsTableEntries t4) + sampleCount l + 1
     else mSttsTableEntries t5 = mSttsTableEntries t4 \<and> sampleCount l1 = sampleCount l)"
  using assms by (auto simp: same_size_step_def stts_step_def split: if_splits)

lemma accept_sample_effect:
  assumes "accept_sample isSync ts copy sz (w, t, l) = (w1, t7, l2)"
  shows "length (mSampleInfos t7) = length (mSampleInfos t) + 1 \<and>
     mChunkSamples t7 = mChunkSamples t @ [copy] \<and>
     mStscTableEntries t7 = mStscTableEntries t \<and> mChunkOffsets t7 = mChunkOffsets t \<and>
     nChunks l2 = nChunks l \<and>
     (if length (mSampleInfos t) + 1 > 2
      then stts_samples (mSttsTableEntries t7) + sampleCount l2 =
           stts_samples (mSttsTableEntries t) + sampleCount l + 1
      else mSttsTableEntries t7 = mSttsTableEntries t \<and> sampleCount l2 = sampleCount l)"
  using assms
  apply (simp add: accept_sample_def Let_def split: prod.splits)
  apply (auto dest!: steps_effect split: if_splits)
  done

lemma accept_sample_stts_inv:
  assumes "accept_sample isSync ts copy sz (w, t, l) = (w1, t7, l2)" and "stts_inv t l"
  shows "stts_inv t7 l2"
proof -
  note e = accept_sample_effect [OF assms(1)]
  consider "length (mSampleInfos t) = 0" | "length (mSampleInfos t) = 1"
    | "2 \<le> length (mSampleInfos t)"
    by arith
  then show ?thesis
  proof cases
    case 1
    with e assms(2) show ?thesis by (simp add: stts_inv_def)
  next
    case 2
    with e assms(2) show ?thesis by (simp add: stts_inv_def stts_samples_def)
  next
    case 3
    with e assms(2) show ?thesis by (simp add: stts_inv_def)
  qed
qed

lemma accept_sample_stsc:
  assumes "accept_sample isSync ts copy sz (w, t, l) = (w1, t7, l2)" and "stsc_inv il t l"
  shows "stsc_samples (mStscTableEntries t7) (nChunks l2) + length (mChunkSamples t7)
       = length (mSampleInfos t7) \<and>
     length (mChunkOffsets t7) = nChunks l2 \<and>
     (mStscTableEntries t7 = [] \<longleftrightarrow> nChunks l2 = 0) \<and>
     (mStscTableEntries t7 \<noteq> [] \<longrightarrow> firstChunk (last (mStscTableEntries t7)) \<le> nChunks l2) \<and>
     mChunkSamples t7 \<noteq> [] \<and> (il = 0 \<longrightarrow> length (mChunkSamples t7) = 1)"
  using accept_sample_effect [OF assms(1)] assms(2)
  by (simp add: stsc_inv_def)

lemma chunk_step_stts:
  "chunk_step il a ts (w, t, l) = Inr (w', t', l') \<Longrightarrow>
   mSampleInfos t' = mSampleInfos t \<and> mSttsTableEntries t' = mSttsTableEntries t \<and>
   sampleCount l' = sampleCount l"
  by (auto simp: chunk_step_def Let_def split: if_splits prod.splits dest!: writeOneChunk_fields)

lemma chunk_step_stts_inv:
  assumes "chunk_step il a ts (w, t, l) = Inr (w', t', l')" and "stts_inv t l"
  shows "stts_inv t' l'"
  using chunk_step_stts [OF assms(1)] assms(2) by (simp add: stts_inv_def)

lemma chunk_step_stsc_inv:
  assumes "chunk_step il a ts (w, t, l) = Inr (w', t', l')"
    and "stsc_samples (mStscTableEntries t) (nChunks l) + length (mChunkSamples t)
           = length (mSampleInfos t)"
    and "length (mChunkOffsets t) = nChunks l"
    and "mStscTableEntries t = [] \<longleftrightarrow> nChunks l = 0"
    and "mStscTableEntries t \<noteq> [] \<longrightarrow> firstChunk (last (mStscTableEntries t)) \<le> nChunks l"
    and "mChunkSamples t \<noteq> []" and "il = 0 \<longrightarrow> length (mChunkSamples t) = 1"
  shows "stsc_inv il t' l'"
proof -
  have flush_new: "stsc_inv il t2 (l\<lparr>nChunks := nChunks l + 1, chunkTimestampUs := c\<rparr>)"
    if "writeOneChunk a (w, t\<lparr>mStscTableEntries := mStscTableEntries t @
          [StscTableEntry (nChunks l + 1) (length (mChunkSamples t)) 1]\<rparr>) = (w2, t2)"
    for w2 t2 c
    using writeOneChunk_fields [OF that] assms(2-6)
    by (simp add: stsc_inv_def stsc_samples_snoc)
  have flush_same: "stsc_inv il t2 (l\<lparr>nChunks := nChunks l + 1, chunkTimestampUs := c\<rparr>)"
    if "writeOneChunk a (w, t) = (w2, t2)" "mStscTableEntries t \<noteq> []"
      "samplesPerChunk (last (mStscTableEntries t)) = length (mChunkSamples t)"
    for w2 t2 c
    using writeOneChunk_fields [OF that(1)] assms(2-6) that(2,3)
    by (simp add: stsc_inv_def stsc_samples_next)
  show ?thesis
  proof (cases "il = 0")
    case True
    then obtain w2 t2 where
      f: "writeOneChunk a (w, t\<lparr>mStscTableEntries := mStscTableEntries t @
            [StscTableEntry (nChunks l + 1) 1 1]\<rparr>) = (w2, t2)"
      and r: "t' = t2" "l' = l\<lparr>nChunks := nChunks l + 1\<rparr>"
      using assms(1) by (auto simp: chunk_step_def Let_def split: prod.splits)
    from True assms(7) have "length (mChunkSamples t) = 1" by simp
    with flush_new [of w2 t2 "chunkTimestampUs l"] f r show ?thesis
      by (simp add: stsc_inv_def)
  next
    case False
    show ?thesis
    proof (cases "chunkTimestampUs l = 0")
      case True
      with False assms show ?thesis
        by (auto simp: chunk_step_def stsc_inv_def)
    next
      case nz: False
      show ?thesis
      proof (cases "int64 (ts - chunkTimestampUs l) > il")
        case no: False
        with False nz assms show ?thesis
          by (auto simp: chunk_step_def stsc_inv_def)
      next
        case True
        let ?l1 = "l\<lparr>nChunks := nChunks l + 1, chunkTimestampUs := ts\<rparr>"
        let ?push = "t\<lparr>mStscTableEntries := mStscTableEntries t @
            [StscTableEntry (nChunks l + 1) (length (mChunkSamples t)) 1]\<rparr>"
        show ?thesis
        proof (cases "nChunks l = 0 \<or>
            samplesPerChunk (last (mStscTableEntries t)) \<noteq> length (mChunkSamples t)")
          case push: True
          with True False nz assms(1) obtain w2 t2 where
            "writeOneChunk a (w, ?push) = (w2, t2)" "t' = t2" "l' = ?l1"
            by (auto simp: chunk_step_def Let_def split: if_splits prod.splits)
          with flush_new [of w2 t2 ts] show ?thesis by simp
        next
          case same: False
          with assms(4) have ne: "mStscTableEntries t \<noteq> []" by auto
          with True False nz same assms(1) obtain w2 t2 where
            "writeOneChunk a (w, t) = (w2, t2)" "t' = t2" "l' = ?l1"
            by (auto simp: chunk_step_def Let_def split: if_splits prod.splits)
          with flush_same [of w2 t2 ts] ne same show ?thesis by simp
        qed
      qed
    qed
  qed
qed

lemma process_sample_Continue:
  assumes "process_sample il is_avc before after buffer data (w, t, l) = Inr (Continue (w', t', l'))"
  shows "\<exists>isSync ts copy sz t1.
     tables t1 = tables t \<and>
     chunk_step il is_avc ts (accept_sample isSync ts copy sz (w, t1, l)) = Inr (w', t', l')"
proof -
  let ?copy = "if is_avc then StripStartcode data else data"
  let ?sz = "if is_avc then length ?copy + 4 else length ?copy"
  let ?t1 = "t\<lparr>mEstimatedTrackSizeBytes := int64 (mEstimatedTrackSizeBytes t + int ?sz)\<rparr>"
  let ?sync = "case kKeyIsSyncFrame buffer of None \<Rightarrow> 0 | Some v \<Rightarrow> v"
  obtain ts where ts: "kKeyTime buffer = Some ts"
    using assms by (auto simp: process_sample_def Let_def split: if_splits option.splits)
  have "chunk_step il is_avc ts (accept_sample ?sync ts ?copy ?sz (w, ?t1, l)) = Inr (w', t', l')"
    using assms ts
    by (simp add: process_sample_def Let_def split: if_splits sum.splits)
  moreover have "tables ?t1 = tables t"
    by (simp add: tables_def)
  ultimately show ?thesis by blast
qed

lemma process_sample_Break:
  assumes "process_sample il is_avc before after buffer data (w, t, l) = Inr (Break (w', t', l'))"
  shows "tables t' = tables t \<and> l' = l"
  using assms
  by (auto simp: process_sample_def Let_def tables_def
           split: if_splits prod.splits sum.splits option.splits)

lemma process_sample_inv:
  assumes "process_sample il is_avc before after buffer data (w, t, l) = Inr r"
    and "r = Continue (w', t', l') \<or> r = Break (w', t', l')"
  shows "(stts_inv t l \<longrightarrow> stts_inv t' l') \<and> (stsc_inv il t l \<longrightarrow> stsc_inv il t' l')"
proof (cases r)
  case (Continue s)
  with assms have c:
    "process_sample il is_avc before after buffer data (w, t, l) = Inr (Continue (w', t', l'))"
    by simp
  from process_sample_Continue [OF c] obtain isSync ts copy sz t1 where
    t1: "tables t1 = tables t" and
    cs: "chunk_step il is_avc ts (accept_sample isSync ts copy sz (w, t1, l)) = Inr (w', t', l')"
    by blast
  obtain w1 t7 l2 where a: "accept_sample isSync ts copy sz (w, t1, l) = (w1, t7, l2)"
    by (metis prod_cases3)
  have i1: "stts_inv t1 l = stts_inv t l" "stsc_inv il t1 l = stsc_inv il t l"
    using t1 by (rule stts_inv_tables, simp) (rule stsc_inv_tables [OF t1], simp)
  have cs': "chunk_step il is_avc ts (w1, t7, l2) = Inr (w', t', l')"
    using cs a by simp
  have "stts_inv t l \<longrightarrow> stts_inv t' l'"
    using i1 accept_sample_stts_inv [OF a] chunk_step_stts_inv [OF cs'] by blast
  moreover have "stsc_inv il t l \<longrightarrow> stsc_inv il t' l'"
  proof
    assume "stsc_inv il t l"
    with i1 have "stsc_inv il t1 l" by simp
    note p = accept_sample_stsc [OF a this]
    show "stsc_inv il t' l'"
    proof (rule chunk_step_stsc_inv [OF cs'])
      show "stsc_samples (mStscTableEntries t7) (nChunks l2) + length (mChunkSamples t7)
          = length (mSampleInfos t7)"
        using p by simp
      show "length (mChunkOffsets t7) = nChunks l2"
        using p by simp
      show "mStscTableEntries t7 = [] \<longleftrightarrow> nChunks l2 = 0"
        using p by simp
      show "mStscTableEntries t7 \<noteq> [] \<longrightarrow> firstChunk (last (mStscTableEntries t7)) \<le> nChunks l2"
        using p by simp
      show "mChunkSamples t7 \<noteq> []"
        using p by simp
      show "il = 0 \<longrightarrow> length (mChunkSamples t7) = 1"
        using p by simp
    qed
  qed
  ultimately show ?thesis ..
next
  case (Break s)
  with assms have
    "process_sample il is_avc before after buffer data (w, t, l) = Inr (Break (w', t', l'))"
    by simp
  from process_sample_Break [OF this] have b: "tables t' = tables t" "l' = l"
    by simp_all
  have "stts_inv t' l' = stts_inv t l"
    using b(1) by (rule stts_inv_tables) (simp add: b(2))
  moreover have "stsc_inv il t' l' = stsc_inv il t l"
    using b(1) by (rule stsc_inv_tables) (simp add: b(2))
  ultimately show ?thesis by simp
qed

lemma loop_body_inv:
  assumes "loop_body il is_avc is_mpeg4 before after buffer (w, t, l) = Inr r"
    and "r = Continue (w', t', l') \<or> r = Break (w', t', l')"
  shows "(stts_inv t l \<longrightarrow> stts_inv t' l') \<and> (stsc_inv il t l \<longrightarrow> stsc_inv il t' l')"
proof (cases "length (range_data buffer) = 0")
  case True
  with assms have "t' = t" "l' = l\<lparr>nZeroLengthFrames := nZeroLengthFrames l + 1\<rparr>"
    by (auto simp: loop_body_def)
  then show ?thesis
    by (simp add: stts_inv_def stsc_inv_def)
next
  case False
  let ?l1 = "l\<lparr>count := count l + 1\<rparr>"
  have l1: "stts_inv t1 ?l1 = stts_inv t l \<and> stsc_inv il t1 ?l1 = stsc_inv il t l"
    if "tables t1 = tables t" for t1
  proof
    show "stts_inv t1 ?l1 = stts_inv t l"
      using that by (rule stts_inv_tables) simp
    show "stsc_inv il t1 ?l1 = stsc_inv il t l"
      using that by (rule stsc_inv_tables) simp
  qed
  from assms False obtain d where d: "classify is_avc is_mpeg4 (count ?l1) buffer t = Inr d"
    by (auto simp: loop_body_def Let_def split: sum.splits)
  show ?thesis
  proof (cases d)
    case (Skip t1)
    with assms False d have "t' = t1" "l' = ?l1"
      by (auto simp: loop_body_def Let_def)
    with classify_tables [OF d] Skip l1 [of t1] show ?thesis by simp
  next
    case (Take data t1)
    with assms(1) False d have
      "process_sample il is_avc before after buffer data (w, t1, ?l1) = Inr r"
      by (simp add: loop_body_def Let_def)
    from process_sample_inv [OF this assms(2)] classify_tables [OF d] Take l1 [of t1]
    show ?thesis by simp
  qed
qed

lemma read_loop_inv:
  assumes "read_loop il is_avc is_mpeg4 before after buffers (w, t, l) = Inr (w', t', l')"
  shows "(stts_inv t l \<longrightarrow> stts_inv t' l') \<and> (stsc_inv il t l \<longrightarrow> stsc_inv il t' l')"
  using assms
proof (induction buffers arbitrary: w t l)
  case Nil
  then show ?case by simp
next
  case (Cons buffer rest)
  show ?case
  proof (cases "mDone t")
    case True
    with Cons.prems show ?thesis by simp
  next
    case False
    with Cons.prems obtain r where
      r: "loop_body il is_avc is_mpeg4 before after buffer (w, t, l) = Inr r"
      by (auto split: sum.splits)
    show ?thesis
    proof (cases r)
      case (Break s)
      with Cons.prems False r have "r = Break (w', t', l')" by simp
      with loop_body_inv [OF r] show ?thesis by blast
    next
      case (Continue s)
      obtain w1 t1 l1 where s: "s = (w1, t1, l1)" by (metis prod_cases3)
      with Cons.prems False r Continue have
        "read_loop il is_avc is_mpeg4 before after rest (w1, t1, l1) = Inr (w', t', l')"
        by simp
      from Cons.IH [OF this] loop_body_inv [OF r, of w1 t1 l1] Continue s show ?thesis
        by blast
    qed
  qed
qed

lemma after_loop_stts:
  assumes "after_loop is_avc (w, t, l) = (w', t', l')" and "stts_inv t l"
  shows "mSampleInfos t' = mSampleInfos t \<and>
    stts_samples (mSttsTableEntries t') =
      (if mSampleInfos t = [] then 2 else length (mSampleInfos t))"
proof -
  obtain w2 t2 where
    s2: "(if mChunkSamples t \<noteq> [] then
            writeOneChunk is_avc
              (if mSampleInfos t = [] then notify INFO_STOP_PREMATURELY w else w,
               t\<lparr>mStscTableEntries := mStscTableEntries t @
                    [StscTableEntry (nChunks l + 1) (length (mChunkSamples t)) 1]\<rparr>)
          else (if mSampleInfos t = [] then notify INFO_STOP_PREMATURELY w else w, t)) = (w2, t2)"
    by (metis surj_pair)
  then have keep: "mSampleInfos t2 = mSampleInfos t \<and> mSttsTableEntries t2 = mSttsTableEntries t"
    by (auto split: if_splits dest!: writeOneChunk_fields)
  have t': "t' = t2\<lparr>mSttsTableEntries := mSttsTableEntries t2 @
        [SttsTableEntry (if length (mSampleInfos t) = 1 then sampleCount l else sampleCount l + 1)
           (uint32 (if length (mSampleInfos t) = 1 then 0 else lastDuration l))],
      mReachedEOS := True\<rparr>"
    using assms(1) s2 by (auto simp: after_loop_def Let_def split: if_splits)
  consider "length (mSampleInfos t) = 0" | "length (mSampleInfos t) = 1"
    | "2 \<le> length (mSampleInfos t)"
    by arith
  then show ?thesis
  proof cases
    case 1
    with t' keep assms(2) show ?thesis by (simp add: stts_inv_def stts_samples_def)
  next
    case 2
    with t' keep assms(2) show ?thesis by (auto simp: stts_inv_def stts_samples_def)
  next
    case 3
    with t' keep assms(2) show ?thesis by (auto simp: stts_inv_def)
  qed
qed

lemma after_loop_stsc:
  assumes "after_loop is_avc (w, t, l) = (w', t', l')" and "stsc_inv il t l"
  shows "stsc_samples (mStscTableEntries t') (nChunks l') = length (mSampleInfos t') \<and>
    length (mChunkOffsets t') = nChunks l' \<and> mChunkSamples t' = [] \<and> mReachedEOS t'"
proof (cases "mChunkSamples t = []")
  case True
  with assms(1) have "mStscTableEntries t' = mStscTableEntries t" "nChunks l' = nChunks l"
    "mSampleInfos t' = mSampleInfos t" "mChunkOffsets t' = mChunkOffsets t"
    "mChunkSamples t' = []" "mReachedEOS t'"
    by (auto simp: after_loop_def Let_def split: if_splits)
  with True assms(2) show ?thesis by (simp add: stsc_inv_def)
next
  case False
  let ?w1 = "if mSampleInfos t = [] then notify INFO_STOP_PREMATURELY w else w"
  obtain w2 t2 where
    f: "writeOneChunk is_avc
          (?w1, t\<lparr>mStscTableEntries := mStscTableEntries t @
                   [StscTableEntry (nChunks l + 1) (length (mChunkSamples t)) 1]\<rparr>) = (w2, t2)"
    by (metis surj_pair)
  with False assms(1) have r: "mStscTableEntries t' = mStscTableEntries t2"
    "nChunks l' = nChunks l + 1" "mSampleInfos t' = mSampleInfos t2"
    "mChunkOffsets t' = mChunkOffsets t2" "mChunkSamples t' = mChunkSamples t2" "mReachedEOS t'"
    by (auto simp: after_loop_def Let_def split: if_splits)
  from writeOneChunk_fields [OF f] False r assms(2) show ?thesis
    by (simp add: stsc_inv_def stsc_samples_snoc)
qed

lemma fresh_inv:
  assumes "mSampleInfos t = []" "mSttsTableEntries t = []"
  shows "stts_inv t locals_init"
  using assms by (simp add: stts_inv_def locals_init_def)

lemma fresh_stsc_inv:
  assumes "mSampleInfos t = []" "mChunkSamples t = []" "mStscTableEntries t = []"
    "mChunkOffsets t = []"
  shows "stsc_inv il t locals_init"
  using assms by (simp add: stsc_inv_def locals_init_def)

lemma threadEntry_unfold:
  assumes "threadEntry before after buffers (w, t) = Inr (w', t', l')"
  shows "\<exists>is_avc is_mpeg4 w1 t1 l1.
    read_loop (mInterleaveDurationUs w) is_avc is_mpeg4 before after buffers (w, t, locals_init)
      = Inr (w1, t1, l1) \<and>
    after_loop is_avc (w1, t1, l1) = (w', t', l')"
  using assms
  by (simp add: threadEntry_def Let_def split: option.splits sum.splits) (metis prod_cases3)

lemma stts_covers_samples:
  assumes "threadEntry before after buffers (w, t) = Inr (w', t', l')"
    and "mSampleInfos t = []" and "mSttsTableEntries t = []"
  shows "stts_samples (mSttsTableEntries t') =
    (if mSampleInfos t' = [] then 2 else length (mSampleInfos t'))"
proof -
  from threadEntry_unfold [OF assms(1)] obtain is_avc is_mpeg4 w1 t1 l1 where
    rl: "read_loop (mInterleaveDurationUs w) is_avc is_mpeg4 before after buffers
           (w, t, locals_init) = Inr (w1, t1, l1)"
    and al: "after_loop is_avc (w1, t1, l1) = (w', t', l')"
    by blast
  from read_loop_inv [OF rl] fresh_inv [OF assms(2,3)] have "stts_inv t1 l1" by blast
  from after_loop_stts [OF al this] show ?thesis by simp
qed

section \<open>The tables when the producer loop has finished\<close>

text \<open>
  C5. When the producer loop of a track has finished, the sample-to-chunk table and the
  chunk offsets fit together: the runs of the table, each counted with its samples per
  chunk, make up the number of entries of \<open>mSampleInfos\<close>, and there is one chunk
  offset for each chunk that was flushed (\<open>nChunks\<close> counts them). The track starts with
  empty tables, as its constructor leaves them.
\<close>

theorem stsc_co64_consistent:
  assumes "threadEntry before after buffers (w, t) = Inr (w', t', l')"
    and "mSampleInfos t = []" and "mChunkSamples t = []"
    and "mStscTableEntries t = []" and "mChunkOffsets t = []"
  shows "mReachedEOS t' \<and>
    stsc_samples (mStscTableEntries t') (nChunks l') = length (mSampleInfos t') \<and>
    length (mChunkOffsets t') = nChunks l'"
proof -
  from threadEntry_unfold [OF assms(1)] obtain is_avc is_mpeg4 w1 t1 l1 where
    rl: "read_loop (mInterleaveDurationUs w) is_avc is_mpeg4 before after buffers
           (w, t, locals_init) = Inr (w1, t1, l1)"
    and al: "after_loop is_avc (w1, t1, l1) = (w', t', l')"
    by blast
  have "stsc_inv (mInterleaveDurationUs w) t locals_init"
    using assms(2-5) by (rule fresh_stsc_inv)
  with read_loop_inv [OF rl] have "stsc_inv (mInterleaveDurationUs w) t1 l1"
    by blast
  from after_loop_stsc [OF al this] show ?thesis by simp
qed

lemmas thread_eval_defs =
  threadEntry_def after_loop_def strcasecmp_def tolower_def
  MEDIA_MIMETYPE_VIDEO_MPEG4_def MEDIA_MIMETYPE_AUDIO_AAC_def MEDIA_MIMETYPE_VIDEO_AVC_def
  Track_start_def loop_eval_defs

theorem stsc_co64_consistent_witness:
  "\<exists>w' t' l'.
     threadEntry [] []
       [\<lparr>range_data = [1, 2], kKeyIsCodecConfig = None, kKeyIsSyncFrame = None, kKeyTime = Some 1000\<rparr>,
        \<lparr>range_data = [3, 4], kKeyIsCodecConfig = None, kKeyIsSyncFrame = None, kKeyTime = Some 300000\<rparr>,
        \<lparr>range_data = [5, 6], kKeyIsCodecConfig = None, kKeyIsSyncFrame = None, kKeyTime = Some 700000\<rparr>,
        \<lparr>range_data = [7, 8], kKeyIsCodecConfig = None, kKeyIsSyncFrame = None, kKeyTime = Some 800000\<rparr>]
       (MPEG4Writer_new, snd (Track_start (Track_new (Some ''audio/3gpp'') None None (Some 1) (Some 8000) OK 0 0)))
       = Inr (w', t', l') \<and>
     mStscTableEntries t' = [StscTableEntry 1 3 1, StscTableEntry 2 1 1] \<and>
     mChunkOffsets t' = [0, 6] \<and> nChunks l' = 2 \<and> length (mSampleInfos t') = 4 \<and>
     mReachedEOS t' \<and>
     stsc_samples (mStscTableEntries t') (nChunks l') = length (mSampleInfos t') \<and>
     length (mChunkOffsets t') = nChunks l'"
proof -
  let ?bufs = "[\<lparr>range_data = [1, 2], kKeyIsCodecConfig = None, kKeyIsSyncFrame = None, kKeyTime = Some 1000\<rparr>,
        \<lparr>range_data = [3, 4], kKeyIsCodecConfig = None, kKeyIsSyncFrame = None, kKeyTime = Some 300000\<rparr>,
        \<lparr>range_data = [5, 6], kKeyIsCodecConfig = None, kKeyIsSyncFrame = None, kKeyTime = Some 700000\<rparr>,
        \<lparr>range_data = [7, 8 :: byte], kKeyIsCodecConfig = None, kKeyIsSyncFrame = None, kKeyTime = Some 800000\<rparr>]"
  let ?t = "snd (Track_start (Track_new (Some ''audio/3gpp'') None None (Some 1) (Some 8000) OK 0 0))"
  obtain w' t' l' where r: "threadEntry [] [] ?bufs (MPEG4Writer_new, ?t) = Inr (w', t', l')"
    "mStscTableEntries t' = [StscTableEntry 1 3 1, StscTableEntry 2 1 1]"
    "mChunkOffsets t' = [0, 6]" "nChunks l' = 2" "length (mSampleInfos t') = 4"
    by (simp add: thread_eval_defs)
  have fresh: "mSampleInfos ?t = []" "mChunkSamples ?t = []" "mStscTableEntries ?t = []"
    "mChunkOffsets ?t = []"
    by (simp_all add: Track_start_def Track_new_def)
  from stsc_co64_consistent [OF r(1) fresh] r show ?thesis
    by blast
qed

text \<open>
  C2. The claim: when the producer loop of a track has finished, the sample counts of
  its time-to-sample entries add up to the number of entries of \<open>mSampleInfos\<close>, for
  every number of accepted samples, zero included. For one sample or more this is
  \<open>stts_covers_samples\<close> above. A track that accepted no sample is counted wrongly: the
  code after the loop adds one "for the last sample" to the running count of 1 and
  closes the table with an entry of two samples.
\<close>

theorem stts_of_empty_track:
  "\<exists>w' t' l'.
     threadEntry before after []
       (w, snd (Track_start (Track_new (Some mime) width height channels rate OK start0 end0)))
       = Inr (w', t', l') \<and>
     mReachedEOS t' \<and> mSampleInfos t' = [] \<and>
     mSttsTableEntries t' = [SttsTableEntry 2 0] \<and>
     stts_samples (mSttsTableEntries t') = 2"
  by (simp add: threadEntry_def after_loop_def Track_start_def Track_new_def locals_init_def
        uint32_def stts_samples_def Let_def)

section \<open>The length field of a box\<close>

lemma write_at_Nil [simp]: "write_at p [] m = m"
  by (rule ext) (auto simp: write_at_def)

lemma write_at_append:
  "q = p + length a \<Longrightarrow> write_at q b (write_at p a m) = write_at p (a @ b) m"
  by (rule ext) (auto simp: write_at_def nth_append)

lemma read_at_Nil [simp]: "read_at m p 0 = []"
  by (simp add: read_at_def)

lemma length_read_at [simp]: "length (read_at m p n) = n"
  by (simp add: read_at_def)

lemma read_at_write_at: "read_at (write_at p bs m) p (length bs) = bs"
  by (rule nth_equalityI) (auto simp: read_at_def write_at_def)

lemma read_at_write_at_prefix:
  "read_at (write_at off a buf) 0 (off + length a) = read_at buf 0 off @ a"
  by (rule nth_equalityI) (auto simp: read_at_def write_at_def nth_append)

lemma read_at_write_at_inside:
  "read_at (write_at p (pre @ bs) m) (p + length pre) (length bs) = bs"
  by (rule nth_equalityI) (auto simp: read_at_def write_at_def nth_append)

lemma write_bytes_ok:
  assumes "writer_ok w"
  shows "\<exists>w'. write_bytes bs w = Inr w' \<and> writer_ok w'"
  using assms by (auto simp: writer_ok_def write_bytes_def fwrite_def fseeko_def Let_def split: option.splits)

lemma write_bytes_append:
  assumes "writer_ok w"
  shows "write_bytes (a @ b) w = (case write_bytes a w of Inl e \<Rightarrow> Inl e | Inr w1 \<Rightarrow> write_bytes b w1)"
proof (cases "mWriteMoovBoxToMemory w")
  case False
  with assms show ?thesis
    by (cases w) (simp add: write_bytes_def fwrite_def Let_def writer_ok_def write_at_append)
next
  case True
  with assms obtain buf where buf: "mMoovBoxBuffer w = Some buf"
    by (auto simp: writer_ok_def)
  show ?thesis
    using True buf
    by (cases w) (simp add: write_bytes_def fwrite_def fseeko_def Let_def write_at_append
        read_at_write_at_prefix)
qed


lemma write_at_patch:
  "length a = length a0 \<Longrightarrow> q = p + length pre \<Longrightarrow>
   write_at q a (write_at p (pre @ a0 @ b) m) = write_at p (pre @ a @ b) m"
  by (rule ext) (auto simp: write_at_def nth_append)

lemma write_at_patch0:
  "length a = length a0 \<Longrightarrow> write_at p a (write_at p (a0 @ b) m) = write_at p (a @ b) m"
  using write_at_patch [of a a0 p p "[]" b m] by simp

lemma write_bytes_Nil: "writer_ok w \<Longrightarrow> write_bytes [] w = Inr w"
  by (cases w) (auto simp: write_bytes_def fwrite_def writer_ok_def Let_def split: option.splits)

lemma writer_ok_push: "writer_ok (w\<lparr>mBoxes := bs\<rparr>) = writer_ok w"
  by (simp add: writer_ok_def)

lemma beginBox_eq:
  assumes "writer_ok w" and "length f = 4"
  shows "beginBox f w =
    write_bytes (be32 0 @ bytes_of f)
      (w\<lparr>mBoxes := mBoxes w @
           [if mWriteMoovBoxToMemory w then mMoovBoxBufferOffset w else mOffset w]\<rparr>)"
proof -
  let ?w0 = "w\<lparr>mBoxes := mBoxes w @
           [if mWriteMoovBoxToMemory w then mMoovBoxBufferOffset w else mOffset w]\<rparr>"
  have "writer_ok ?w0"
    using assms(1) by (simp add: writer_ok_push)
  from write_bytes_append [OF this, of "be32 0" "bytes_of f"] assms(2) show ?thesis
    by (simp add: beginBox_def writeInt32_def writeFourcc_def split: sum.splits)
qed

lemma close_box:
  assumes "writer_ok w"
    and "write_bytes (be32 0 @ body)
      (w\<lparr>mBoxes := mBoxes w @
           [if mWriteMoovBoxToMemory w then mMoovBoxBufferOffset w else mOffset w]\<rparr>) = Inr w2"
  shows "endBox w2 = write_bytes (be32 (int (4 + length body)) @ body) w"
proof (cases "mWriteMoovBoxToMemory w")
  case False
  with assms show ?thesis
    by (cases w)
       (auto simp: write_bytes_def endBox_def writeInt32_def fwrite_def fseeko_def Let_def
          writer_ok_def write_at_patch0)
next
  case True
  with assms(1) obtain buf where buf: "mMoovBoxBuffer w = Some buf"
    by (auto simp: writer_ok_def)
  show ?thesis
  proof (cases "8 + mMoovBoxBufferOffset w + (4 + length body) > mEstimatedMoovBoxSize w")
    case fits: False
    with True buf assms(2) show ?thesis
      by (cases w)
         (auto simp: write_bytes_def endBox_def Let_def write_at_patch0)
  next
    case over: True
    with True buf assms(2) show ?thesis
      by (cases w)
         (auto simp: write_bytes_def endBox_def writeInt32_def fwrite_def fseeko_def Let_def
            write_at_patch write_at_append)
  qed
qed

lemma length_sers:
  "fourcc_ok t \<longrightarrow> length (ser t) = size_of t"
  "fourccs_ok ts \<longrightarrow> length (sers ts) = sizes_of ts"
  by (induction t and ts rule: size_of_sizes_of.induct) simp_all

lemma emit_eq_write:
  "writer_ok w \<longrightarrow> fourcc_ok t \<longrightarrow> emit t w = write_bytes (ser t) w"
  "writer_ok w \<longrightarrow> fourccs_ok ts \<longrightarrow> emits ts w = write_bytes (sers ts) w"
proof (induction t w and ts w rule: emit_emits.induct)
  case (1 bs w)
  show ?case by simp
next
  case (2 fourcc items w)
  show ?case
  proof (intro impI)
    assume ok: "writer_ok w" and f: "fourcc_ok (Box fourcc items)"
    let ?w0 = "w\<lparr>mBoxes := mBoxes w @
           [if mWriteMoovBoxToMemory w then mMoovBoxBufferOffset w else mOffset w]\<rparr>"
    have ok0: "writer_ok ?w0"
      using ok by (simp add: writer_ok_push)
    from f have len: "length fourcc = 4" and fs: "fourccs_ok items" by simp_all
    have bb: "beginBox fourcc w = write_bytes (be32 0 @ bytes_of fourcc) ?w0"
      using ok len by (rule beginBox_eq)
    from write_bytes_ok [OF ok0] obtain w1 where
      w1: "write_bytes (be32 0 @ bytes_of fourcc) ?w0 = Inr w1" and ok1: "writer_ok w1"
      by blast
    from "2.IH" [of w1] bb w1 ok1 fs have es: "emits items w1 = write_bytes (sers items) w1"
      by simp
    from write_bytes_ok [OF ok1] obtain w2 where
      w2: "write_bytes (sers items) w1 = Inr w2"
      by blast
    have "write_bytes (be32 0 @ bytes_of fourcc @ sers items) ?w0 = Inr w2"
      using write_bytes_append [OF ok0, of "be32 0 @ bytes_of fourcc" "sers items"] w1 w2
      by simp
    from close_box [OF ok this] have "endBox w2 = write_bytes (ser (Box fourcc items)) w"
      using len fs length_sers(2) [of items] by simp
    with bb w1 es w2 show "emit (Box fourcc items) w = write_bytes (ser (Box fourcc items)) w"
      by simp
  qed
next
  case (3 w)
  show ?case by (simp add: write_bytes_Nil)
next
  case (4 i items w)
  show ?case
  proof (intro impI)
    assume ok: "writer_ok w" and f: "fourccs_ok (i # items)"
    from "4.IH"(1) ok f have e: "emit i w = write_bytes (ser i) w" by simp
    from write_bytes_ok [OF ok] obtain w1 where
      w1: "write_bytes (ser i) w = Inr w1" and ok1: "writer_ok w1"
      by blast
    from "4.IH"(2) [of w1] e w1 ok1 f have "emits items w1 = write_bytes (sers items) w1"
      by simp
    with e w1 write_bytes_append [OF ok, of "ser i" "sers items"]
    show "emits (i # items) w = write_bytes (sers (i # items)) w"
      by simp
  qed
qed



lemma write_bytes_stored:
  assumes "writer_ok w" and "write_bytes bs w = Inr w'"
  shows "stored_at w w' (length bs) = bs"
proof (cases "mWriteMoovBoxToMemory w")
  case False
  with assms show ?thesis
    by (auto simp: write_bytes_def stored_at_def writer_ok_def fwrite_def Let_def read_at_write_at)
next
  case True
  with assms(1) obtain buf where buf: "mMoovBoxBuffer w = Some buf"
    by (auto simp: writer_ok_def)
  show ?thesis
  proof (cases "8 + mMoovBoxBufferOffset w + length bs > mEstimatedMoovBoxSize w")
    case fits: False
    with True buf assms(2) show ?thesis
      by (auto simp: write_bytes_def stored_at_def read_at_write_at)
  next
    case over: True
    have "read_at (write_at (mOffset w) (read_at buf 0 (mMoovBoxBufferOffset w) @ bs) (disk w))
        (mOffset w + mMoovBoxBufferOffset w) (length bs) = bs"
      using read_at_write_at_inside [of "mOffset w" "read_at buf 0 (mMoovBoxBufferOffset w)" bs "disk w"]
      by simp
    with over True buf assms(2) show ?thesis
      by (auto simp: write_bytes_def stored_at_def fwrite_def fseeko_def Let_def write_at_append)
  qed
qed

lemma be_value_be32:
  assumes "n < 2 ^ 32"
  shows "be_value (be32 (int n)) = n"
proof -
  define a where "a = n div 256"
  define b where "b = a div 256"
  define c where "c = b div 256"
  have c: "c < 256"
    using assms unfolding c_def b_def a_def by simp
  have ia: "int n div 2 ^ 8 = int a"
    unfolding a_def by (simp add: zdiv_int)
  have ib: "int n div 2 ^ 16 = int b"
    unfolding b_def a_def by (simp add: zdiv_int div_mult2_eq)
  have ic: "int n div 2 ^ 24 = int c"
    unfolding c_def b_def a_def by (simp add: zdiv_int div_mult2_eq)
  have u: "unat (of_nat m :: byte) = m mod 256" for m
    by (simp add: unat_of_nat)
  have "be_value (be32 (int n)) = ((c mod 256 * 256 + b mod 256) * 256 + a mod 256) * 256 + n mod 256"
    unfolding be32_def ia ib ic by (simp add: be_value_def u)
  also have "c mod 256 = c" using c by simp
  also have "c * 256 + b mod 256 = b" unfolding c_def by simp
  also have "b * 256 + a mod 256 = a" unfolding b_def by simp
  also have "a * 256 + n mod 256 = n" unfolding a_def by simp
  finally show ?thesis .
qed

lemma take4_ser: "take 4 (ser (Box fourcc items)) = be32 (int (size_of (Box fourcc items)))"
  by simp

text \<open>
  Where boxes are emitted, the writer is in such a state: \<open>start\<close> leaves the stream at
  the logical offset, and \<open>stop\<close> sets up the buffer with offset 0 while \<open>start\<close> has
  checked that eight bytes fit. A moov box that stayed in memory is copied to the reserved
  place of the file as it is, followed by the free box. The boxes that \<open>start\<close> and
  \<open>stop\<close> write themselves are sequences of calls of the form \<open>calls_of\<close>.
\<close>

lemma start_writer_ok:
  assumes "start (w, ts) = Inr (st, w', ts')" and "mFile w" and "fpos w = mOffset w"
  shows "writer_ok w' \<and> 8 \<le> mEstimatedMoovBoxSize w' \<and> mBoxes w' = mBoxes w"
  using assms
  by (auto simp: start_def prim_defs writer_ok_def split: if_splits sum.splits prod.splits)

lemma stop_buffer_writer_ok:
  "8 \<le> mEstimatedMoovBoxSize w \<Longrightarrow>
   writer_ok (w\<lparr>mWriteMoovBoxToMemory := True, mMoovBoxBuffer := Some buf,
                mMoovBoxBufferOffset := 0\<rparr>)"
  by (simp add: writer_ok_def)

lemma place_moov_copies:
  assumes "mStreamableFile w" and "\<not> mWriteMoovBoxToMemory w"
    and "mMoovBoxBuffer w = Some buf"
    and "mMoovBoxBufferOffset w + 8 \<le> mEstimatedMoovBoxSize w"
  shows "\<exists>w'. place_moov w = Inr w' \<and>
    read_at (disk w') (mFreeBoxOffset w) (mMoovBoxBufferOffset w)
      = read_at buf 0 (mMoovBoxBufferOffset w) \<and>
    read_at (disk w') (mFreeBoxOffset w + mMoovBoxBufferOffset w) 8
      = be32 (int (mEstimatedMoovBoxSize w) - int (mMoovBoxBufferOffset w)) @ bytes_of ''free''"
proof -
  let ?m = "read_at buf 0 (mMoovBoxBufferOffset w)"
  let ?f = "be32 (int (mEstimatedMoovBoxSize w) - int (mMoovBoxBufferOffset w)) @ bytes_of ''free''"
  have d: "place_moov w = Inr (w\<lparr>fpos := mFreeBoxOffset w + mMoovBoxBufferOffset w + 8,
      mOffset := mFreeBoxOffset w + mMoovBoxBufferOffset w + 8,
      mFreeBoxOffset := mFreeBoxOffset w + mMoovBoxBufferOffset w,
      disk := write_at (mFreeBoxOffset w) (?m @ ?f) (disk w),
      mMoovBoxBuffer := None, mMoovBoxBufferOffset := 0\<rparr>)"
    using assms
    by (cases w) (simp add: place_moov_def prim_defs write_at_append)
  have "read_at (write_at (mFreeBoxOffset w) (?m @ ?f) (disk w)) (mFreeBoxOffset w) (length ?m) = ?m"
    by (rule nth_equalityI) (auto simp: read_at_def write_at_def nth_append)
  moreover have "read_at (write_at (mFreeBoxOffset w) (?m @ ?f) (disk w))
      (mFreeBoxOffset w + length ?m) (length ?f) = ?f"
    by (rule read_at_write_at_inside)
  ultimately show ?thesis
    using d by simp
qed


lemma writeFourcc_eq: "length s = 4 \<Longrightarrow> writeFourcc s = write_bytes (bytes_of s)"
  by (rule ext) (simp add: writeFourcc_def)

lemma ftyp_is_box:
  "[beginBox ''ftyp'', writeFourcc ''isom'', writeInt32 0, writeFourcc ''isom'', endBox] =
   calls_of (Box ''ftyp'' [Raw (bytes_of ''isom''), Raw (be32 0), Raw (bytes_of ''isom'')])"
  by (simp add: writeFourcc_eq writeInt32_def)

lemma mvhd_is_box:
  "write_mvhd now max_duration ntracks =
   calls_of (Box ''mvhd''
     (map Raw
        ([be32 0, be32 now, be32 now, be32 1000, be32 (tdiv max_duration 1000), be32 0x10000,
          be16 0x100, be16 0, be32 0, be32 0,
          be32 0x10000, be32 0, be32 0, be32 0, be32 0x10000, be32 0, be32 0, be32 0,
          be32 0x40000000,
          be32 0, be32 0, be32 0, be32 0, be32 0, be32 0, be32 (int ntracks + 1)])))"
  by (simp add: write_mvhd_def matrix_def writeInt32_def writeInt16_def)

text \<open>
  C1. Every box that the writer emits with \<open>beginBox\<close> and \<open>endBox\<close> carries its own
  length: emitting a box, with any boxes and bytes inside it, leaves the writer as one
  \<open>write_bytes\<close> of its serialisation \<open>ser\<close> would (\<open>emit_eq_write\<close>), in which every
  box starts with the big-endian number of its bytes, header included. So the bytes of
  the box, where they lie afterwards, are \<open>ser\<close> of it. This holds when the box is
  assembled in memory, when it is written to the file, and when the writer falls back
  from memory to the file while the box is open: the saved positions are rebased by
  \<open>mOffset\<close>, where the buffered bytes are flushed to. The field has four bytes, so it is
  the length itself for every box shorter than \<open>2\<^sup>3\<^sup>2\<close> bytes.
\<close>

theorem box_length_field:
  assumes "writer_ok w" and "fourcc_ok (Box fourcc items)"
  shows "\<exists>w'. emit (Box fourcc items) w = Inr w' \<and> writer_ok w' \<and>
     stored_at w w' (size_of (Box fourcc items)) = ser (Box fourcc items) \<and>
     take 4 (stored_at w w' (size_of (Box fourcc items))) =
       be32 (int (size_of (Box fourcc items))) \<and>
     (size_of (Box fourcc items) < 2 ^ 32 \<longrightarrow>
       be_value (take 4 (stored_at w w' (size_of (Box fourcc items)))) =
         size_of (Box fourcc items))"
proof -
  let ?b = "Box fourcc items"
  from write_bytes_ok [OF assms(1)] obtain w' where
    w': "write_bytes (ser ?b) w = Inr w'" and ok': "writer_ok w'"
    by blast
  have e: "emit ?b w = Inr w'"
    using emit_eq_write(1) [of w ?b] assms w' by simp
  have len: "length (ser ?b) = size_of ?b"
    using length_sers(1) [of ?b] assms(2) by blast
  have st: "stored_at w w' (size_of ?b) = ser ?b"
    using write_bytes_stored [OF assms(1) w'] len by simp
  have t4: "take 4 (ser ?b) = be32 (int (size_of ?b))"
    by (rule take4_ser)
  show ?thesis
    using e ok' st t4 be_value_be32 [of "size_of ?b"] by auto
qed

theorem box_length_field_witness:
  "\<exists>w'. emit (Box ''moov'' [Box ''mvhd'' [Raw [1, 2, 3, 4]]])
          (MPEG4Writer_new\<lparr>mWriteMoovBoxToMemory := True, mMoovBoxBuffer := Some (\<lambda>_. 0),
             mEstimatedMoovBoxSize := 16, mOffset := 100, fpos := 100\<rparr>) = Inr w' \<and>
     \<not> mWriteMoovBoxToMemory w' \<and> mBoxes w' = [] \<and> mOffset w' = 120 \<and>
     read_at (disk w') 100 20 =
       [0, 0, 0, 20, 0x6d, 0x6f, 0x6f, 0x76, 0, 0, 0, 12, 0x6d, 0x76, 0x68, 0x64, 1, 2, 3, 4]"
proof -
  let ?w = "MPEG4Writer_new\<lparr>mWriteMoovBoxToMemory := True, mMoovBoxBuffer := Some (\<lambda>_. 0),
             mEstimatedMoovBoxSize := 16, mOffset := 100, fpos := 100\<rparr>"
  let ?b = "Box ''moov'' [Box ''mvhd'' [Raw [1, 2, 3, 4]]]"
  have ok: "writer_ok ?w"
    by (simp add: writer_ok_def MPEG4Writer_new_def)
  have f: "fourcc_ok ?b"
    by simp
  from box_length_field [OF ok f] obtain w' where
    w': "emit ?b ?w = Inr w'" and st: "stored_at ?w w' (size_of ?b) = ser ?b"
    by blast
  have m: "\<not> mWriteMoovBoxToMemory w'" "mBoxes w' = []" "mOffset w' = 120"
    using w' by (auto simp: prim_defs MPEG4Writer_new_def split: if_splits)
  have "ser ?b = [0, 0, 0, 20, 0x6d, 0x6f, 0x6f, 0x76, 0, 0, 0, 12, 0x6d, 0x76, 0x68, 0x64, 1, 2, 3, 4]"
    by (simp add: be32_def bytes_of_def)
  with st m(1) have "read_at (disk w') 100 20 =
      [0, 0, 0, 20, 0x6d, 0x6f, 0x6f, 0x76, 0, 0, 0, 12, 0x6d, 0x76, 0x68, 0x64, 1, 2, 3, 4]"
    by (simp add: stored_at_def MPEG4Writer_new_def)
  with w' m show ?thesis by blast
qed

section \<open>A track without samples\<close>

lemma write_bytes_depth:
  assumes "writer_ok w"
  shows "\<exists>w'. write_bytes bs w = Inr w' \<and> writer_ok w' \<and> length (mBoxes w') = length (mBoxes w)"
  using assms by (auto simp: writer_ok_def write_bytes_def fwrite_def fseeko_def Let_def split: option.splits)

lemma beginBox_depth:
  assumes "writer_ok w" and "length f = 4"
  shows "\<exists>w'. beginBox f w = Inr w' \<and> writer_ok w' \<and> length (mBoxes w') = Suc (length (mBoxes w))"
proof -
  let ?w0 = "w\<lparr>mBoxes := mBoxes w @
           [if mWriteMoovBoxToMemory w then mMoovBoxBufferOffset w else mOffset w]\<rparr>"
  have "writer_ok ?w0"
    using assms(1) by (simp add: writer_ok_push)
  from write_bytes_depth [OF this, of "be32 0 @ bytes_of f"] beginBox_eq [OF assms] show ?thesis
    by auto
qed

lemma endBox_depth:
  assumes "writer_ok w" and "length (mBoxes w) = Suc d"
  shows "\<exists>w'. endBox w = Inr w' \<and> writer_ok w' \<and> length (mBoxes w') = d"
  using assms
  by (cases w)
     (auto simp: writer_ok_def endBox_def write_bytes_def writeInt32_def fwrite_def fseeko_def
        Let_def split: option.splits)

lemma nesting_run:
  assumes "nesting d cs d'"
  shows "writer_ok w \<Longrightarrow> length (mBoxes w) = d \<Longrightarrow>
         \<exists>w'. run cs w = Inr w' \<and> writer_ok w' \<and> length (mBoxes w') = d'"
  using assms
proof (induction arbitrary: w rule: nesting.induct)
  case (nesting_done d)
  then show ?case by simp
next
  case (nesting_begin fourcc d cs d')
  from beginBox_depth [OF nesting_begin.prems(1) nesting_begin.hyps(1)] nesting_begin.prems(2)
  obtain w1 where "beginBox fourcc w = Inr w1" "writer_ok w1" "length (mBoxes w1) = Suc d"
    by auto
  with nesting_begin.IH [of w1] show ?case by simp
next
  case (nesting_write d cs d' bs)
  from write_bytes_depth [OF nesting_write.prems(1), of bs] nesting_write.prems(2)
  obtain w1 where "write_bytes bs w = Inr w1" "writer_ok w1" "length (mBoxes w1) = d"
    by auto
  with nesting_write.IH [of w1] show ?case by simp
next
  case (nesting_end d cs d')
  from endBox_depth [OF nesting_end.prems]
  obtain w1 where "endBox w = Inr w1" "writer_ok w1" "length (mBoxes w1) = d"
    by auto
  with nesting_end.IH [of w1] show ?case by simp
qed






























end
